theory Spec2Isabelle
  imports Main
begin

section \<open>Python values and failures\<close>

text \<open>
  The exceptions the program can raise.  \<open>InvalidMoveError\<close> is the program's own class
  (line 10); the others are the interpreter's: an index out of range, a failed
  \<open>assert\<close>, an attribute looked up on \<open>None\<close>, \<open>max\<close> of an empty dictionary, a missing
  dictionary key.
\<close>

datatype error =
  InvalidMoveError | IndexError | AssertionError | AttributeError | ValueError | KeyError

text \<open>A call either raises or returns.\<close>

datatype 'a result = Raise error | Return 'a

fun bind :: "'a result \<Rightarrow> ('a \<Rightarrow> 'b result) \<Rightarrow> 'b result" where
  "bind (Raise e) f = Raise e"
| "bind (Return x) f = f x"

text \<open>
  \<open>xs[k]\<close> and \<open>xs[k] = v\<close> on a Python list: a negative index counts from the end, an
  index outside \<open>[-len, len)\<close> raises \<open>IndexError\<close>.
\<close>

definition py_index :: "'a list \<Rightarrow> int \<Rightarrow> nat result" where
  "py_index xs k =
     (let n = int (length xs); k' = (if k < 0 then k + n else k)
      in if 0 \<le> k' \<and> k' < n then Return (nat k') else Raise IndexError)"

definition py_get :: "'a list \<Rightarrow> int \<Rightarrow> 'a result" where
  "py_get xs k = bind (py_index xs k) (\<lambda>n. Return (xs ! n))"

definition py_set :: "'a list \<Rightarrow> int \<Rightarrow> 'a \<Rightarrow> 'a list result" where
  "py_set xs k v = bind (py_index xs k) (\<lambda>n. Return (xs[n := v]))"

text \<open>A \<open>for\<close> loop over a list whose body may raise: the first raise ends the loop.\<close>

fun for_each :: "'a list \<Rightarrow> ('s \<Rightarrow> 'a \<Rightarrow> 's result) \<Rightarrow> 's \<Rightarrow> 's result" where
  "for_each [] body s = Return s"
| "for_each (x # xs) body s =
     (case body s x of Raise e \<Rightarrow> Raise e | Return s' \<Rightarrow> for_each xs body s')"

section \<open>Geometry: \<open>Point\<close> and \<open>Block\<close>\<close>

text \<open>\<open>class Point\<close>: the fields \<open>i\<close> (row) and \<open>j\<close> (column), Python integers.\<close>

record Point =
  pt_i :: int
  pt_j :: int

text \<open>
  \<open>class Block\<close>.  \<open>center\<close> and \<open>offsets\<close> are fixed at construction; \<open>translation\<close> and
  \<open>rotation\<close> are the mutable pose.  A method that mutates \<open>self\<close> is modelled as a
  function returning the block after the call.
\<close>

record Block =
  center :: Point
  offsets :: "Point list"
  translation :: Point
  rotation :: int

text \<open>\<open>Block.__init__\<close>: translation \<open>Point()\<close>, rotation 0.\<close>

definition new_Block :: "Point \<Rightarrow> Point list \<Rightarrow> Block" where
  "new_Block c offs =
     \<lparr>center = c, offsets = offs, translation = \<lparr>pt_i = 0, pt_j = 0\<rparr>, rotation = 0\<rparr>"

text \<open>
  \<open>Block.squares\<close> (lines 32-44).  \<open>self.rotation % 2\<close> is Python's floored remainder, which
  is HOL's \<open>mod\<close> on \<open>int\<close>; the raw counter is the multiplier in both branches.
\<close>

definition squares :: "Block \<Rightarrow> Point list" where
  "squares self =
     (if rotation self mod 2 \<noteq> 0
      then map (\<lambda>offset.
             \<lparr>pt_i = pt_i (center self) + pt_i (translation self)
                      + (2 - rotation self) * pt_j offset,
              pt_j = pt_j (center self) + pt_j (translation self)
                      - (2 - rotation self) * pt_i offset\<rparr>) (offsets self)
      else map (\<lambda>offset.
             \<lparr>pt_i = pt_i (center self) + pt_i (translation self)
                      + (1 - rotation self) * pt_i offset,
              pt_j = pt_j (center self) + pt_j (translation self)
                      + (1 - rotation self) * pt_j offset\<rparr>) (offsets self))"

definition left :: "Block \<Rightarrow> Block" where
  "left self = self\<lparr>translation := (translation self)\<lparr>pt_j := pt_j (translation self) - 1\<rparr>\<rparr>"

definition right :: "Block \<Rightarrow> Block" where
  "right self = self\<lparr>translation := (translation self)\<lparr>pt_j := pt_j (translation self) + 1\<rparr>\<rparr>"

definition up :: "Block \<Rightarrow> Block" where
  "up self = self\<lparr>translation := (translation self)\<lparr>pt_i := pt_i (translation self) - 1\<rparr>\<rparr>"

definition down :: "Block \<Rightarrow> Block" where
  "down self = self\<lparr>translation := (translation self)\<lparr>pt_i := pt_i (translation self) + 1\<rparr>\<rparr>"

definition rotate_block :: "Block \<Rightarrow> Block" where
  "rotate_block self = self\<lparr>rotation := rotation self + 1\<rparr>"

definition unrotate :: "Block \<Rightarrow> Block" where
  "unrotate self = self\<lparr>rotation := rotation self - 1\<rparr>"

definition reset_position :: "Block \<Rightarrow> Block" where
  "reset_position self = self\<lparr>translation := \<lparr>pt_i = 0, pt_j = 0\<rparr>, rotation := 0\<rparr>"

text \<open>
  \<open>Block.do_command\<close> (lines 102-105): the \<open>assert\<close> admits the five primitives only, then
  \<open>getattr(self, command)()\<close> calls the method of that name.
\<close>

definition do_command :: "Block \<Rightarrow> string \<Rightarrow> Block result" where
  "do_command self command =
     (if command \<notin> set [''left'', ''right'', ''up'', ''down'', ''rotate'']
      then Raise AssertionError
      else if command = ''left'' then Return (left self)
      else if command = ''right'' then Return (right self)
      else if command = ''up'' then Return (up self)
      else if command = ''down'' then Return (down self)
      else Return (rotate_block self))"

section \<open>\<open>Board\<close>: the grid, the legality check\<close>

type_synonym grid = "int list list"

record Board =
  bitmap :: grid
  block :: Block
  preview :: "Block list"

text \<open>The class attributes \<open>Board.rows = 33\<close> and \<open>Board.cols = 12\<close>.\<close>

definition Board_rows :: int where "Board_rows = 33"
definition Board_cols :: int where "Board_cols = 12"

text \<open>
  \<open>Board.check\<close> (lines 141-147).  The \<open>or\<close> chain is evaluated left to right and stops at
  the first true disjunct, so \<open>self.bitmap[square.i][square.j]\<close> is read only when the four
  bound tests are false.  A cell is occupied when it is truthy (non-zero).
\<close>

fun check_squares :: "grid \<Rightarrow> Point list \<Rightarrow> bool result" where
  "check_squares bm [] = Return True"
| "check_squares bm (square # rest) =
     (if pt_i square < 0 \<or> pt_i square \<ge> Board_rows \<or>
         pt_j square < 0 \<or> pt_j square \<ge> Board_cols
      then Return False
      else case py_get bm (pt_i square) of
             Raise e \<Rightarrow> Raise e
           | Return row \<Rightarrow>
               (case py_get row (pt_j square) of
                  Raise e \<Rightarrow> Raise e
                | Return v \<Rightarrow> if v \<noteq> 0 then Return False else check_squares bm rest))"

definition check :: "Board \<Rightarrow> Block \<Rightarrow> bool result" where
  "check self blk = check_squares (bitmap self) (squares blk)"

text \<open>
  The \<open>checked_*\<close> methods (lines 67-100).  Each returns the block after the call and
  what the call returned; when \<open>board.check\<close> raises, the primitive has already been applied.
\<close>

definition checked_left :: "Block \<Rightarrow> Board \<Rightarrow> Block \<times> bool result" where
  "checked_left self board =
     (let b = left self in
      case check board b of
        Raise e \<Rightarrow> (b, Raise e)
      | Return ok \<Rightarrow> if ok then (b, Return True) else (right b, Return False))"

definition checked_right :: "Block \<Rightarrow> Board \<Rightarrow> Block \<times> bool result" where
  "checked_right self board =
     (let b = right self in
      case check board b of
        Raise e \<Rightarrow> (b, Raise e)
      | Return ok \<Rightarrow> if ok then (b, Return True) else (left b, Return False))"

definition checked_down :: "Block \<Rightarrow> Board \<Rightarrow> Block \<times> bool result" where
  "checked_down self board =
     (let b = down self in
      case check board b of
        Raise e \<Rightarrow> (b, Raise e)
      | Return ok \<Rightarrow> if ok then (b, Return True) else (up b, Return False))"

definition checked_up :: "Block \<Rightarrow> Board \<Rightarrow> Block \<times> bool result" where
  "checked_up self board =
     (let b = up self in
      case check board b of
        Raise e \<Rightarrow> (b, Raise e)
      | Return ok \<Rightarrow> if ok then (b, Return True) else (down b, Return False))"

definition checked_rotate :: "Block \<Rightarrow> Board \<Rightarrow> Block \<times> bool result" where
  "checked_rotate self board =
     (let b = rotate_block self in
      case check board b of
        Raise e \<Rightarrow> (b, Raise e)
      | Return ok \<Rightarrow> if ok then (b, Return True) else (unrotate b, Return False))"

section \<open>Row removal and the commit\<close>

text \<open>
  \<open>Board.remove_rows\<close> (lines 192-195).  \<open>len(bitmap[0])\<close> raises on an empty grid;
  \<open>all(row)\<close> holds when no cell of the row is zero (also for an empty row);
  \<open>range(n)\<close> is empty for \<open>n \<le> 0\<close>.
\<close>

definition py_all :: "int list \<Rightarrow> bool" where
  "py_all row = list_all (\<lambda>v. v \<noteq> 0) row"

definition remove_rows :: "grid \<Rightarrow> grid result" where
  "remove_rows bm =
     (case py_get bm 0 of
        Raise e \<Rightarrow> Raise e
      | Return row0 \<Rightarrow>
          (let rows = int (length bm); cols = length row0;
               new_bitmap = filter (\<lambda>row. \<not> py_all row) bm
           in Return (replicate (nat (rows - int (length new_bitmap))) (replicate cols 0)
                      @ new_bitmap)))"

text \<open>
  The merge of \<open>Board.place\<close> (lines 181-183): \<open>new_bitmap[square.i][square.j] = 1\<close> for
  every square in turn, on the copy \<open>[list(row) for row in self.bitmap]\<close>.  Both
  subscripts are Python subscripts.  In this value model the copy is the grid itself and
  the assignment into a row replaces that row; a later section has the rows as shared
  objects in a store.
\<close>

definition set_cell :: "grid \<Rightarrow> Point \<Rightarrow> grid result" where
  "set_cell bm square =
     (case py_index bm (pt_i square) of
        Raise e \<Rightarrow> Raise e
      | Return r \<Rightarrow>
          (case py_set (bm ! r) (pt_j square) 1 of
             Raise e \<Rightarrow> Raise e
           | Return row' \<Rightarrow> Return (bm[r := row'])))"

definition merge_squares :: "grid \<Rightarrow> Point list \<Rightarrow> grid result" where
  "merge_squares bm sqs = for_each sqs set_cell bm"

text \<open>
  The loop \<open>while self.check(self.block): self.block.down()\<close> of \<open>Board.place\<close>.  It need
  not end (a block with no offsets passes every check), so it is a partial function:
  \<open>None\<close> is the loop that never ends.  The result is the block when the loop ended and
  how it ended.
\<close>

partial_function (option) drop_loop :: "Board \<Rightarrow> Block \<Rightarrow> (Block \<times> unit result) option" where
  "drop_loop self b =
     (case check self b of
        Raise e \<Rightarrow> Some (b, Raise e)
      | Return ok \<Rightarrow> if ok then drop_loop self (down b) else Some (b, Return ()))"

declare drop_loop.simps [code]

text \<open>
  \<open>Board.place\<close> (lines 176-188).  The result is the state of \<open>self.block\<close> after the
  call, the lines printed, and what the call returned: \<open>None\<close> (after the message) when
  the preview list is empty, otherwise the new board.
\<close>

definition preview_message :: string where
  "preview_message =
     ''There are no blocks left in the preview list! You can't look that far ahead.''"

definition place :: "Board \<Rightarrow> (Block \<times> string list \<times> Board option result) option" where
  "place self =
     (case drop_loop self (block self) of
        None \<Rightarrow> None
      | Some (b, Raise e) \<Rightarrow> Some (b, [], Raise e)
      | Some (b, Return u) \<Rightarrow>
          (let b' = up b in
           case bind (merge_squares (bitmap self) (squares b')) remove_rows of
             Raise e \<Rightarrow> Some (b', [], Raise e)
           | Return new_bitmap \<Rightarrow>
               if length (preview self) = 0
               then Some (b', [preview_message], Return None)
               else Some (b', [],
                      Return (Some \<lparr>bitmap = new_bitmap, block = preview self ! 0,
                                    preview = drop 1 (preview self)\<rparr>))))"

text \<open>
  \<open>Board.do_commands\<close> (lines 155-167).  \<open>commands.append('drop')\<close> changes the caller's
  list, so the list after the call is part of the result: the block after the call, the
  command list after the call, the lines printed, and what the call returned or raised.
  A \<open>for\<close> loop that ends without \<open>return\<close> returns \<open>None\<close>.
\<close>

fun run_commands ::
  "Board \<Rightarrow> string list \<Rightarrow> (Block \<times> string list \<times> Board option result) option" where
  "run_commands self [] = Some (block self, [], Return None)"
| "run_commands self (command # rest) =
     (if command = ''drop'' then place self
      else case do_command (block self) command of
             Raise e \<Rightarrow> Some (block self, [], Raise e)
           | Return b \<Rightarrow>
               (case check self b of
                  Raise e \<Rightarrow> Some (b, [], Raise e)
                | Return ok \<Rightarrow>
                    if \<not> ok then Some (b, [], Raise InvalidMoveError)
                    else run_commands (self\<lparr>block := b\<rparr>) rest))"

definition do_commands ::
  "Board \<Rightarrow> string list \<Rightarrow> (Block \<times> string list \<times> string list \<times> Board option result) option" where
  "do_commands self commands =
     (let b0 = reset_position (block self) in
      case check self b0 of
        Raise e \<Rightarrow> Some (b0, commands, [], Raise e)
      | Return ok \<Rightarrow>
          if \<not> ok then Some (b0, commands, [], Raise InvalidMoveError)
          else map_option (\<lambda>(b, out, r). (b, commands @ [''drop''], out, r))
                 (run_commands (self\<lparr>block := b0\<rparr>) (commands @ [''drop''])))"

section \<open>The heuristic features\<close>

text \<open>
  The features read \<open>self.bitmap\<close> only (the module's own \<open>test_board\<close> has no block and no
  preview), so they are functions of the grid.  \<open>Board.size\<close> (line 198).
\<close>

definition size_of :: "grid \<Rightarrow> (nat \<times> nat) result" where
  "size_of bm = bind (py_get bm 0) (\<lambda>row0. Return (length bm, length row0))"

definition cell :: "grid \<Rightarrow> nat \<Rightarrow> nat \<Rightarrow> int result" where
  "cell bm row col = bind (py_get bm (int row)) (\<lambda>r. py_get r (int col))"

text \<open>\<open>Board.num_holes\<close> (lines 200-213): the state is \<open>(holes, column_occupied)\<close>.\<close>

definition num_holes :: "grid \<Rightarrow> int result" where
  "num_holes bm =
     bind (size_of bm) (\<lambda>(rows, cols).
       bind (for_each [0..<rows]
               (\<lambda>st row. for_each [0..<cols]
                  (\<lambda>(holes, column_occupied) col.
                     bind (cell bm row col) (\<lambda>v.
                       if v = 0
                       then (if column_occupied ! col \<noteq> (0::int)
                             then Return (holes + 1, column_occupied)
                             else Return (holes, column_occupied))
                       else Return (holes, column_occupied[col := column_occupied ! col + 1])))
                  st)
               (0::int, replicate cols 0))
            (\<lambda>(holes, column_occupied). Return holes))"

text \<open>\<open>Board.col_height\<close> (lines 215-220): the first non-zero cell from the top.\<close>

fun col_scan :: "grid \<Rightarrow> nat \<Rightarrow> nat \<Rightarrow> nat list \<Rightarrow> int result" where
  "col_scan bm rows col [] = Return 0"
| "col_scan bm rows col (row # rest) =
     (case cell bm row col of
        Raise e \<Rightarrow> Raise e
      | Return v \<Rightarrow> if v \<noteq> 0 then Return (int rows - int row) else col_scan bm rows col rest)"

definition col_height :: "grid \<Rightarrow> nat \<Rightarrow> int result" where
  "col_height bm col = bind (size_of bm) (\<lambda>(rows, cols). col_scan bm rows col [0..<rows])"

definition max_height :: "grid \<Rightarrow> int result" where
  "max_height bm =
     bind (size_of bm) (\<lambda>(rows, cols).
       for_each [0..<cols]
         (\<lambda>m_height col. bind (col_height bm col) (\<lambda>h. Return (max m_height h))) 0)"

text \<open>\<open>Board.height_variance\<close> (lines 229-237): the state is \<open>(variance, prev)\<close>.\<close>

definition height_variance :: "grid \<Rightarrow> int result" where
  "height_variance bm =
     bind (size_of bm) (\<lambda>(rows, cols).
       bind (col_height bm 0) (\<lambda>prev0.
         bind (for_each [0..<cols]
                 (\<lambda>(variance, prev) col.
                    bind (col_height bm col) (\<lambda>cur. Return (variance + \<bar>cur - prev\<bar>, cur)))
                 (0, prev0))
              (\<lambda>(variance, prev). Return variance)))"

definition height_penalty :: "grid \<Rightarrow> int result" where
  "height_penalty bm =
     bind (size_of bm) (\<lambda>(rows, cols).
       for_each [0..<rows]
         (\<lambda>st row. for_each [0..<cols]
            (\<lambda>penalty col.
               bind (cell bm row col) (\<lambda>v.
                 if v \<noteq> 0 then Return (penalty + (int rows - int row)) else Return penalty))
            st)
         0)"

text \<open>\<open>Board.evaluate\<close> (lines 248-250); the operands are evaluated left to right.\<close>

definition evaluate :: "grid \<Rightarrow> int result" where
  "evaluate bm =
     bind (num_holes bm) (\<lambda>h.
       bind (max_height bm) (\<lambda>m.
         bind (height_variance bm) (\<lambda>v. Return (- h - m - v))))"

text \<open>The module's \<open>test_board\<close> (line 252).\<close>

definition test_board :: grid where
  "test_board = [[1, 1, 1], [1, 0, 1], [1, 1, 1]]"

section \<open>The placement search\<close>

text \<open>
  The dictionary \<open>choices\<close> as an association list with one entry per key:
  \<open>d[k] = v\<close>, \<open>d[k]\<close> and \<open>max(d)\<close> (the largest key; \<open>ValueError\<close> when \<open>d\<close> is empty).
\<close>

fun dict_set :: "'k \<Rightarrow> 'v \<Rightarrow> ('k \<times> 'v) list \<Rightarrow> ('k \<times> 'v) list" where
  "dict_set k v [] = [(k, v)]"
| "dict_set k v ((k', v') # rest) =
     (if k' = k then (k, v) # rest else (k', v') # dict_set k v rest)"

definition dict_get :: "('k \<times> 'v) list \<Rightarrow> 'k \<Rightarrow> 'v result" where
  "dict_get d k = (case map_of d k of None \<Rightarrow> Raise KeyError | Some v \<Rightarrow> Return v)"

definition py_max :: "int list \<Rightarrow> int result" where
  "py_max ks = (case ks of [] \<Rightarrow> Raise ValueError | k # rest \<Rightarrow> Return (fold max rest k))"

text \<open>
  The state of the loops of \<open>__main__\<close> (lines 270-289).  \<open>block\<close> is the object
  \<open>board.block\<close>, so the live piece is the \<open>block\<close> field of \<open>st_board\<close>; the grid and the
  preview of \<open>board\<close> are never assigned.  \<open>st_probes\<close> is not a variable of the program:
  it is the trace of the calls \<open>board.do_commands(moves[:])\<close>, each with the list handed
  over and the score recorded for it (\<open>None\<close> when the call raised \<open>InvalidMoveError\<close>).
\<close>

record search_state =
  st_board :: Board
  st_choices :: "(int \<times> string list) list"
  st_moves :: "string list"
  st_probes :: "(string list \<times> int option) list"

text \<open>
  \<open>while block.checked_left(board): moves.append('left')\<close> and the same loop with
  \<open>checked_down\<close>.  The result is the board (with the live piece) and the move list when
  the loop ended.
\<close>

partial_function (option) left_loop ::
  "Board \<Rightarrow> string list \<Rightarrow> (Board \<times> string list result) option" where
  "left_loop board moves =
     (case checked_left (block board) board of
        (b, Raise e) \<Rightarrow> Some (board\<lparr>block := b\<rparr>, Raise e)
      | (b, Return ok) \<Rightarrow>
          if ok then left_loop (board\<lparr>block := b\<rparr>) (moves @ [''left''])
          else Some (board\<lparr>block := b\<rparr>, Return moves))"

declare left_loop.simps [code]

partial_function (option) down_loop ::
  "Board \<Rightarrow> string list \<Rightarrow> (Board \<times> string list result) option" where
  "down_loop board moves =
     (case checked_down (block board) board of
        (b, Raise e) \<Rightarrow> Some (board\<lparr>block := b\<rparr>, Raise e)
      | (b, Return ok) \<Rightarrow>
          if ok then down_loop (board\<lparr>block := b\<rparr>) (moves @ [''down''])
          else Some (board\<lparr>block := b\<rparr>, Return moves))"

declare down_loop.simps [code]

text \<open>
  A \<open>for\<close> loop of the main program: the body may not return (\<open>None\<close>) or may raise an
  exception that nothing catches, which ends the program.
\<close>

fun for_range :: "nat list \<Rightarrow> ('s \<Rightarrow> nat \<Rightarrow> 's result option) \<Rightarrow> 's \<Rightarrow> 's result option" where
  "for_range [] body s = Some (Return s)"
| "for_range (x # xs) body s =
     (case body s x of
        None \<Rightarrow> None
      | Some (Raise e) \<Rightarrow> Some (Raise e)
      | Some (Return s') \<Rightarrow> for_range xs body s')"

text \<open>
  The body of the inner loop (lines 282-289).  \<open>do_commands\<close> gets the copy \<open>moves[:]\<close>,
  so the \<open>'drop'\<close> it appends does not reach \<open>moves\<close>.  Only \<open>InvalidMoveError\<close> is caught;
  \<open>new_board.evaluate()\<close> on \<open>None\<close> raises \<open>AttributeError\<close>.
\<close>

definition rot_round :: "search_state \<Rightarrow> search_state result option" where
  "rot_round st =
     (let moves = st_moves st @ [''rotate''];
          board = (st_board st)\<lparr>block := reset_position (block (st_board st))\<rparr>
      in case do_commands board moves of
           None \<Rightarrow> None
         | Some (b, commands, out, Raise e) \<Rightarrow>
             if e = InvalidMoveError
             then Some (Return (st\<lparr>st_board := board\<lparr>block := b\<rparr>, st_moves := moves,
                                    st_probes := st_probes st @ [(moves, None)]\<rparr>))
             else Some (Raise e)
         | Some (b, commands, out, Return None) \<Rightarrow> Some (Raise AttributeError)
         | Some (b, commands, out, Return (Some new_board)) \<Rightarrow>
             (case evaluate (bitmap new_board) of
                Raise e \<Rightarrow>
                  if e = InvalidMoveError
                  then Some (Return (st\<lparr>st_board := board\<lparr>block := b\<rparr>, st_moves := moves,
                                         st_probes := st_probes st @ [(moves, None)]\<rparr>))
                  else Some (Raise e)
              | Return cur \<Rightarrow>
                  Some (Return (st\<lparr>st_board := board\<lparr>block := b\<rparr>,
                                    st_choices := dict_set cur moves (st_choices st),
                                    st_moves := moves,
                                    st_probes := st_probes st @ [(moves, Some cur)]\<rparr>))))"

text \<open>The body of the outer loop (lines 273-289) for the shift \<open>i\<close>.\<close>

definition shift_round :: "search_state \<Rightarrow> nat \<Rightarrow> search_state result option" where
  "shift_round st i =
     (case left_loop (st_board st) [] of
        None \<Rightarrow> None
      | Some (board1, Raise e) \<Rightarrow> Some (Raise e)
      | Some (board1, Return moves1) \<Rightarrow>
          (case down_loop board1 (moves1 @ replicate i ''right'') of
             None \<Rightarrow> None
           | Some (board2, Raise e) \<Rightarrow> Some (Raise e)
           | Some (board2, Return moves2) \<Rightarrow>
               for_range [0..<3] (\<lambda>s _. rot_round s)
                 (st\<lparr>st_board := board2, st_moves := moves2\<rparr>)))"

definition search :: "Board \<Rightarrow> search_state result option" where
  "search board =
     for_range [0..<12] shift_round
       \<lparr>st_board = board, st_choices = [], st_moves = [], st_probes = []\<rparr>"

text \<open>
  Lines 291-292: \<open>todo = choices[max(choices)]\<close>, then \<open>todo\<close> is printed one token per
  line.  The result is the list printed.
\<close>

definition main :: "Board \<Rightarrow> string list result option" where
  "main board =
     (case search board of
        None \<Rightarrow> None
      | Some (Raise e) \<Rightarrow> Some (Raise e)
      | Some (Return st) \<Rightarrow>
          Some (bind (py_max (map fst (st_choices st))) (dict_get (st_choices st))))"

section \<open>The commit on a store of row objects\<close>

text \<open>
  A grid is a list of row objects, and \<open>new_bitmap[i][j] = 1\<close> changes a row object in
  place.  Here the rows live in a store (the address of a row is its position in the
  store, a new row is appended) and a grid is the list of its rows' addresses; the outer
  lists are never changed in place and stay values.  \<open>load\<close> reads a grid off the store.
\<close>

type_synonym store = "int list list"
type_synonym grid_ref = "nat list"

definition load :: "store \<Rightarrow> grid_ref \<Rightarrow> grid" where
  "load h g = map (\<lambda>a. h ! a) g"

record HBoard =
  bitmap_ref :: grid_ref
  hblock :: Block
  hpreview :: "Block list"

definition view :: "store \<Rightarrow> HBoard \<Rightarrow> Board" where
  "view h self = \<lparr>bitmap = load h (bitmap_ref self), block = hblock self,
                  preview = hpreview self\<rparr>"

text \<open>\<open>[list(row) for row in self.bitmap]\<close>: one new row object per row, in order.\<close>

fun copy_rows :: "store \<Rightarrow> grid_ref \<Rightarrow> store \<times> grid_ref" where
  "copy_rows h [] = (h, [])"
| "copy_rows h (a # rest) =
     (case copy_rows (h @ [h ! a]) rest of (h', g) \<Rightarrow> (h', length h # g))"

text \<open>\<open>new_bitmap[square.i][square.j] = 1\<close>: the row object is changed, the grid is not.\<close>

definition set_cell_h :: "grid_ref \<Rightarrow> store \<Rightarrow> Point \<Rightarrow> store result" where
  "set_cell_h g h square =
     (case py_get g (pt_i square) of
        Raise e \<Rightarrow> Raise e
      | Return a \<Rightarrow>
          (case py_set (h ! a) (pt_j square) 1 of
             Raise e \<Rightarrow> Raise e
           | Return row' \<Rightarrow> Return (h[a := row'])))"

text \<open>
  \<open>Board.remove_rows\<close> on the store: the rows kept are the same objects, every
  \<open>cols*[0]\<close> is a new one.
\<close>

definition remove_rows_h :: "store \<Rightarrow> grid_ref \<Rightarrow> (store \<times> grid_ref) result" where
  "remove_rows_h h g =
     (case py_get g 0 of
        Raise e \<Rightarrow> Raise e
      | Return a0 \<Rightarrow>
          (let rows = int (length g); cols = length (h ! a0);
               new_bitmap = filter (\<lambda>a. \<not> py_all (h ! a)) g;
               k = nat (rows - int (length new_bitmap))
           in Return (h @ replicate k (replicate cols 0),
                      [length h ..< length h + k] @ new_bitmap)))"

text \<open>\<open>Board.place\<close> on the store; \<open>check\<close> only reads the grid.\<close>

definition place_h ::
  "store \<Rightarrow> HBoard \<Rightarrow> (store \<times> Block \<times> string list \<times> HBoard option result) option" where
  "place_h h self =
     (case drop_loop (view h self) (hblock self) of
        None \<Rightarrow> None
      | Some (b, Raise e) \<Rightarrow> Some (h, b, [], Raise e)
      | Some (b, Return u) \<Rightarrow>
          (let b' = up b in
           case copy_rows h (bitmap_ref self) of (h1, new_bitmap) \<Rightarrow>
           (case for_each (squares b') (set_cell_h new_bitmap) h1 of
              Raise e \<Rightarrow> Some (h1, b', [], Raise e)
            | Return h2 \<Rightarrow>
                (case remove_rows_h h2 new_bitmap of
                   Raise e \<Rightarrow> Some (h2, b', [], Raise e)
                 | Return (h3, new_bitmap') \<Rightarrow>
                     if length (hpreview self) = 0
                     then Some (h3, b', [preview_message], Return None)
                     else Some (h3, b', [],
                            Return (Some \<lparr>bitmap_ref = new_bitmap', hblock = hpreview self ! 0,
                                          hpreview = drop 1 (hpreview self)\<rparr>))))))"

text \<open>
  A grid whose rows are all in the store, and what a result of \<open>place_h\<close> stands for
  once the new board's grid is read off the store.
\<close>

definition refs_ok :: "store \<Rightarrow> grid_ref \<Rightarrow> bool" where
  "refs_ok h g = list_all (\<lambda>a. a < length h) g"

definition view_result ::
  "store \<times> Block \<times> string list \<times> HBoard option result \<Rightarrow>
   Block \<times> string list \<times> Board option result" where
  "view_result x =
     (case x of (h, b, out, r) \<Rightarrow>
        (b, out, case r of Raise e \<Rightarrow> Raise e
                 | Return None \<Rightarrow> Return None
                 | Return (Some nb) \<Rightarrow> Return (Some (view h nb))))"

section \<open>Well-formed boards, legal poses, example inputs\<close>

text \<open>The grid of a board: 33 rows of 12 cells.\<close>

definition grid_ok :: "grid \<Rightarrow> bool" where
  "grid_ok bm = (length bm = 33 \<and> list_all (\<lambda>row. length row = 12) bm)"

text \<open>
  A cell the piece may occupy: inside the 33 x 12 board and free.  A pose is legal when
  every square of the piece is such a cell.
\<close>

definition legal_cell :: "grid \<Rightarrow> Point \<Rightarrow> bool" where
  "legal_cell bm sq =
     (0 \<le> pt_i sq \<and> pt_i sq < 33 \<and> 0 \<le> pt_j sq \<and> pt_j sq < 12 \<and>
      bm ! nat (pt_i sq) ! nat (pt_j sq) = 0)"

definition legal :: "Board \<Rightarrow> Block \<Rightarrow> bool" where
  "legal board b = list_all (legal_cell (bitmap board)) (squares b)"

text \<open>
  A position of the board, and the grid with the cells of a list of squares set to 1
  (cell by cell, for stating what the merge computes).
\<close>

definition in_board :: "Point \<Rightarrow> bool" where
  "in_board sq = (0 \<le> pt_i sq \<and> pt_i sq < 33 \<and> 0 \<le> pt_j sq \<and> pt_j sq < 12)"

definition paint :: "grid \<Rightarrow> Point list \<Rightarrow> grid" where
  "paint bm sqs =
     map (\<lambda>r. map (\<lambda>c. if \<lparr>pt_i = int r, pt_j = int c\<rparr> \<in> set sqs then 1 else bm ! r ! c)
                 [0..<12]) [0..<33]"

text \<open>The tokens of a move list.\<close>

definition move_tokens :: "string list" where
  "move_tokens = [''left'', ''right'', ''up'', ''down'', ''rotate'', ''drop'']"

text \<open>
  The pose after a token (what \<open>Block.do_command\<close> returns), and the poses a move list
  goes through from a first pose, in order.
\<close>

definition apply_token :: "string \<Rightarrow> Block \<Rightarrow> Block" where
  "apply_token command b = (case do_command b command of Raise e \<Rightarrow> b | Return b' \<Rightarrow> b')"

fun poses :: "Block \<Rightarrow> string list \<Rightarrow> Block list" where
  "poses b [] = [b]"
| "poses b (command # rest) = b # poses (apply_token command b) rest"

text \<open>
  What the trace of a search records: the list recorded under a score is the list of the
  last probe with that score, and the scores are those of the probes that succeeded.
\<close>

definition recorded_for :: "(string list \<times> int option) list \<Rightarrow> int \<Rightarrow> string list option" where
  "recorded_for ps s =
     (case filter (\<lambda>p. snd p = Some s) ps of [] \<Rightarrow> None | q # qs \<Rightarrow> Some (fst (last (q # qs))))"

definition scores :: "(string list \<times> int option) list \<Rightarrow> int list" where
  "scores ps = concat (map (\<lambda>p. case snd p of None \<Rightarrow> [] | Some s \<Rightarrow> [s]) ps)"

text \<open>
  The score of a move list on a board: the value of the board \<open>do_commands\<close> returns,
  \<open>None\<close> when it returns no board.
\<close>

definition score_of :: "Board \<Rightarrow> string list \<Rightarrow> int option" where
  "score_of board moves =
     (case do_commands board moves of
        Some (b, commands, out, Return (Some new_board)) \<Rightarrow>
          (case evaluate (bitmap new_board) of Raise e \<Rightarrow> None | Return cur \<Rightarrow> Some cur)
      | _ \<Rightarrow> None)"

text \<open>
  Two poses of one piece, and the invariant of the loops of the search after \<open>n\<close> probes
  (used in the proofs only): the live piece is the board's piece in some pose, every
  probe so far has the shape and the score stated, and the dictionary agrees with the
  trace.
\<close>

definition same_shape :: "Block \<Rightarrow> Block \<Rightarrow> bool" where
  "same_shape b b' = (center b = center b' \<and> offsets b = offsets b')"

definition search_inv :: "Board \<Rightarrow> nat \<Rightarrow> search_state \<Rightarrow> bool" where
  "search_inv board n st =
     ((\<exists>b. st_board st = board\<lparr>block := b\<rparr> \<and> same_shape b (block board)) \<and>
      length (st_probes st) = n \<and>
      (\<forall>k<n. (\<exists>l d. fst (st_probes st ! k) =
                        replicate l ''left'' @ replicate (k div 3) ''right'' @
                        replicate d ''down'' @ replicate (Suc (k mod 3)) ''rotate'') \<and>
              snd (st_probes st ! k) = score_of board (fst (st_probes st ! k))) \<and>
      (\<forall>s. map_of (st_choices st) s = recorded_for (st_probes st) s))"

definition empty_grid :: grid where
  "empty_grid = replicate 33 (replicate 12 0)"

text \<open>A piece of two cells side by side, spawned in row 1, columns 5 and 6.\<close>

definition domino :: Block where
  "domino = new_Block \<lparr>pt_i = 1, pt_j = 5\<rparr> [\<lparr>pt_i = 0, pt_j = 0\<rparr>, \<lparr>pt_i = 0, pt_j = 1\<rparr>]"

definition start_board :: Board where
  "start_board = \<lparr>bitmap = empty_grid, block = domino, preview = [domino]\<rparr>"

definition last_board :: Board where
  "last_board = \<lparr>bitmap = empty_grid, block = domino, preview = []\<rparr>"

text \<open>The same board on a store that holds the 33 rows of the empty grid.\<close>

definition store_board :: HBoard where
  "store_board = \<lparr>bitmap_ref = [0..<33], hblock = domino, hpreview = [domino]\<rparr>"

section \<open>Basic facts\<close>

lemma py_index_in_range:
  "0 \<le> k \<Longrightarrow> k < int (length xs) \<Longrightarrow> py_index xs k = Return (nat k)"
  by (simp add: py_index_def)

lemma py_get_in_range:
  "0 \<le> k \<Longrightarrow> k < int (length xs) \<Longrightarrow> py_get xs k = Return (xs ! nat k)"
  by (simp add: py_get_def py_index_in_range)

lemma grid_ok_row: "grid_ok bm \<Longrightarrow> r < 33 \<Longrightarrow> length (bm ! r) = 12"
  by (simp add: grid_ok_def list_all_length)

lemma grid_ok_empty: "grid_ok empty_grid"
  by (simp add: grid_ok_def empty_grid_def list_all_length)

lemma inverse_moves:
  "right (left b) = b" "left (right b) = b" "up (down b) = b" "down (up b) = b"
  "unrotate (rotate_block b) = b"
  by (simp_all add: left_def right_def up_def down_def unrotate_def rotate_block_def)

section \<open>The legality check\<close>

lemma check_squares_total:
  "grid_ok bm \<Longrightarrow> check_squares bm sqs = Return (list_all (legal_cell bm) sqs)"
proof (induction sqs)
  case Nil
  show ?case by simp
next
  case (Cons sq rest)
  show ?case
  proof (cases "pt_i sq < 0 \<or> pt_i sq \<ge> 33 \<or> pt_j sq < 0 \<or> pt_j sq \<ge> 12")
    case True
    then show ?thesis
      by (auto simp: Board_rows_def Board_cols_def legal_cell_def)
  next
    case False
    then have i: "0 \<le> pt_i sq" "pt_i sq < int (length bm)"
      using Cons.prems by (auto simp: grid_ok_def)
    from False have r: "nat (pt_i sq) < 33" by auto
    from False have j: "0 \<le> pt_j sq" "pt_j sq < int (length (bm ! nat (pt_i sq)))"
      using grid_ok_row [OF Cons.prems r] by auto
    show ?thesis
      using False Cons.IH [OF Cons.prems]
      by (simp add: Board_rows_def Board_cols_def py_get_in_range [OF i]
          py_get_in_range [OF j] legal_cell_def)
  qed
qed

lemma check_total: "grid_ok (bitmap board) \<Longrightarrow> check board b = Return (legal board b)"
  by (simp add: check_def legal_def check_squares_total)

text \<open>
  C10.  On a board whose grid is 33 rows of 12 cells, \<open>check\<close> returns a boolean for every
  pose of every piece (it is the legality of the pose), and every subscript it can
  evaluate is in range: for a square that passes the four bound tests, both subscripts
  are the positions \<open>square.i\<close> and \<open>square.j\<close> themselves, with no wrap-around and no
  \<open>IndexError\<close>.
\<close>

theorem check_is_total_and_in_range:
  assumes "grid_ok (bitmap board)"
  shows "check board b = Return (legal board b) \<and>
         list_all (\<lambda>sq. \<not> (pt_i sq < 0 \<or> pt_i sq \<ge> Board_rows \<or>
                              pt_j sq < 0 \<or> pt_j sq \<ge> Board_cols) \<longrightarrow>
                         py_index (bitmap board) (pt_i sq) = Return (nat (pt_i sq)) \<and>
                         py_index (bitmap board ! nat (pt_i sq)) (pt_j sq) = Return (nat (pt_j sq)))
           (squares b)"
proof
  show "check board b = Return (legal board b)"
    using assms by (rule check_total)
next
  have "\<not> (pt_i sq < 0 \<or> pt_i sq \<ge> Board_rows \<or> pt_j sq < 0 \<or> pt_j sq \<ge> Board_cols) \<longrightarrow>
        py_index (bitmap board) (pt_i sq) = Return (nat (pt_i sq)) \<and>
        py_index (bitmap board ! nat (pt_i sq)) (pt_j sq) = Return (nat (pt_j sq))"
    for sq :: Point
  proof
    assume b: "\<not> (pt_i sq < 0 \<or> pt_i sq \<ge> Board_rows \<or> pt_j sq < 0 \<or> pt_j sq \<ge> Board_cols)"
    then have r: "nat (pt_i sq) < 33" by (auto simp: Board_rows_def)
    have "length (bitmap board ! nat (pt_i sq)) = 12"
      using assms r by (rule grid_ok_row)
    with b assms show "py_index (bitmap board) (pt_i sq) = Return (nat (pt_i sq)) \<and>
        py_index (bitmap board ! nat (pt_i sq)) (pt_j sq) = Return (nat (pt_j sq))"
      by (simp add: py_index_in_range grid_ok_def Board_rows_def Board_cols_def)
  qed
  then show "list_all (\<lambda>sq. \<not> (pt_i sq < 0 \<or> pt_i sq \<ge> Board_rows \<or>
                              pt_j sq < 0 \<or> pt_j sq \<ge> Board_cols) \<longrightarrow>
                         py_index (bitmap board) (pt_i sq) = Return (nat (pt_i sq)) \<and>
                         py_index (bitmap board ! nat (pt_i sq)) (pt_j sq) = Return (nat (pt_j sq)))
           (squares b)"
    unfolding list_all_iff by blast
qed

section \<open>The checked moves\<close>

text \<open>
  C5.  For each of \<open>checked_left\<close>, \<open>checked_right\<close>, \<open>checked_up\<close>, \<open>checked_down\<close> and
  \<open>checked_rotate\<close>, on every board: when the call returns \<open>True\<close> the new pose passes
  \<open>check\<close> on that board, and when it returns \<open>False\<close> the block is exactly the block
  before the call.  On a 33 x 12 grid the call always returns one of the two.
\<close>

theorem checked_moves_sound:
  assumes "f \<in> set [checked_left, checked_right, checked_up, checked_down, checked_rotate]"
  shows "(\<forall>b' ok. f b board = (b', Return ok) \<longrightarrow>
            (ok \<longrightarrow> check board b' = Return True) \<and> (\<not> ok \<longrightarrow> b' = b)) \<and>
         (grid_ok (bitmap board) \<longrightarrow> (\<exists>b' ok. f b board = (b', Return ok)))"
  using assms
  by (auto simp: checked_left_def checked_right_def checked_up_def checked_down_def
      checked_rotate_def Let_def inverse_moves check_total split: result.splits if_splits)

section \<open>Rotation\<close>

text \<open>
  C1.  Four calls of \<open>rotate\<close> from rotation 0 do not give back the cells of rotation 0.
  For the counters 1, 2 and 3 the multipliers \<open>2 - rotation\<close> and \<open>1 - rotation\<close> are 1 or
  -1 and the cells are the quarter turns of the piece; at 4 the even branch multiplies
  every offset by \<open>1 - 4 = -3\<close>, and the second cell of the domino, which started in
  column 6, is in column 2.
\<close>

theorem rotate_four_times_scales:
  "squares domino = [\<lparr>pt_i = 1, pt_j = 5\<rparr>, \<lparr>pt_i = 1, pt_j = 6\<rparr>] \<and>
   squares (rotate_block domino) = [\<lparr>pt_i = 1, pt_j = 5\<rparr>, \<lparr>pt_i = 2, pt_j = 5\<rparr>] \<and>
   squares (rotate_block (rotate_block domino))
     = [\<lparr>pt_i = 1, pt_j = 5\<rparr>, \<lparr>pt_i = 1, pt_j = 4\<rparr>] \<and>
   squares (rotate_block (rotate_block (rotate_block domino)))
     = [\<lparr>pt_i = 1, pt_j = 5\<rparr>, \<lparr>pt_i = 0, pt_j = 5\<rparr>] \<and>
   squares (rotate_block (rotate_block (rotate_block (rotate_block domino))))
     = [\<lparr>pt_i = 1, pt_j = 5\<rparr>, \<lparr>pt_i = 1, pt_j = 2\<rparr>]"
  by (simp add: squares_def domino_def new_Block_def rotate_block_def)

section \<open>Witnesses on the empty board\<close>

lemma legal_cell_empty:
  "legal_cell empty_grid sq = (0 \<le> pt_i sq \<and> pt_i sq < 33 \<and> 0 \<le> pt_j sq \<and> pt_j sq < 12)"
  by (auto simp: legal_cell_def empty_grid_def)

lemma bitmap_start_board: "bitmap start_board = empty_grid"
  by (simp add: start_board_def)

theorem check_is_total_and_in_range_witness:
  "grid_ok (bitmap start_board) \<and> check start_board domino = Return True \<and>
   check start_board (left (left (left (left (left (left domino)))))) = Return False"
proof -
  have g: "grid_ok (bitmap start_board)"
    by (simp add: bitmap_start_board grid_ok_empty)
  have "legal start_board domino"
    by (simp add: legal_def bitmap_start_board legal_cell_empty squares_def domino_def new_Block_def)
  moreover have "\<not> legal start_board (left (left (left (left (left (left domino))))))"
    by (simp add: legal_def bitmap_start_board legal_cell_empty squares_def domino_def
        new_Block_def left_def)
  ultimately show ?thesis
    using g check_is_total_and_in_range [OF g, of domino]
      check_is_total_and_in_range [OF g, of "left (left (left (left (left (left domino)))))"]
    by simp
qed

theorem checked_moves_sound_witness:
  "checked_down \<in> set [checked_left, checked_right, checked_up, checked_down, checked_rotate] \<and>
   checked_up \<in> set [checked_left, checked_right, checked_up, checked_down, checked_rotate] \<and>
   checked_down domino start_board = (down domino, Return True) \<and>
   check start_board (down domino) = Return True \<and>
   checked_up (up domino) start_board = (up domino, Return False)"
proof -
  have g: "grid_ok (bitmap start_board)"
    by (simp add: bitmap_start_board grid_ok_empty)
  have d: "checked_down \<in> set [checked_left, checked_right, checked_up, checked_down, checked_rotate]"
    by simp
  have u: "checked_up \<in> set [checked_left, checked_right, checked_up, checked_down, checked_rotate]"
    by simp
  have ld: "legal start_board (down domino)"
    by (simp add: legal_def bitmap_start_board legal_cell_empty squares_def domino_def
        new_Block_def down_def)
  have lu: "\<not> legal start_board (up (up domino))"
    by (simp add: legal_def bitmap_start_board legal_cell_empty squares_def domino_def
        new_Block_def up_def)
  have e1: "checked_down domino start_board = (down domino, Return True)"
    using ld by (simp add: checked_down_def check_total [OF g])
  obtain b' where e2: "checked_up (up domino) start_board = (b', Return False)"
    using lu by (simp add: checked_up_def check_total [OF g])
  from checked_moves_sound [OF d, of domino start_board] e1
  have c1: "check start_board (down domino) = Return True" by blast
  from checked_moves_sound [OF u, of "up domino" start_board] e2
  have "b' = up domino" by blast
  with e2 c1 e1 d u show ?thesis by simp
qed

section \<open>Row removal\<close>

lemma py_all_iff: "py_all row \<longleftrightarrow> 0 \<notin> set row"
  by (induction row) (auto simp: py_all_def)

lemma length_filter_split:
  "length (filter P xs) + length (filter (\<lambda>x. \<not> P x) xs) = length xs"
  by (induction xs) auto

lemma remove_rows_closed:
  assumes "bm \<noteq> []"
  shows "remove_rows bm =
           Return (replicate (length (filter py_all bm)) (replicate (length (hd bm)) 0)
                   @ filter (\<lambda>row. \<not> py_all row) bm)"
proof -
  have g: "py_get bm 0 = Return (hd bm)"
    using assms by (cases bm) (simp_all add: py_get_def py_index_def)
  have "nat (int (length bm) - int (length (filter (\<lambda>row. \<not> py_all row) bm)))
          = length (filter py_all bm)"
    using length_filter_split [of py_all bm] by simp
  with g show ?thesis by (simp add: remove_rows_def Let_def)
qed

text \<open>
  C4.  On a grid with at least one row whose rows all have \<open>cols\<close> cells, \<open>remove_rows\<close>
  returns the rows that contain a zero cell, in their order, below as many rows of \<open>cols\<close>
  zeros as there are rows with no zero cell; the result has as many rows as the input,
  each of \<open>cols\<close> cells.
\<close>

theorem remove_rows_spec:
  assumes "bm \<noteq> []" and "list_all (\<lambda>row. length row = cols) bm"
  shows "\<exists>g. remove_rows bm = Return g \<and>
             g = replicate (length (filter (\<lambda>row. 0 \<notin> set row) bm)) (replicate cols 0)
                 @ filter (\<lambda>row. 0 \<in> set row) bm \<and>
             length g = length bm \<and>
             list_all (\<lambda>row. length row = cols) g"
proof -
  have h: "length (hd bm) = cols"
    using assms by (cases bm) simp_all
  have f: "filter py_all bm = filter (\<lambda>row. 0 \<notin> set row) bm"
          "filter (\<lambda>row. \<not> py_all row) bm = filter (\<lambda>row. 0 \<in> set row) bm"
    by (rule filter_cong; simp add: py_all_iff)+
  have l: "length (filter (\<lambda>row. 0 \<notin> set row) bm) + length (filter (\<lambda>row. 0 \<in> set row) bm)
             = length bm"
    using length_filter_split [of "\<lambda>row. 0 \<notin> set row" bm] by simp
  have r: "list_all (\<lambda>row. length row = cols) (filter (\<lambda>row. 0 \<in> set row) bm)"
    using assms(2) by (simp add: list_all_iff)
  show ?thesis
    using remove_rows_closed [OF assms(1)] h l r
    by (auto simp: f list_all_iff)
qed

theorem remove_rows_spec_witness:
  "[[1, 1], [0, 1], [1, 1], [1, 0 :: int]] \<noteq> [] \<and>
   list_all (\<lambda>row. length row = 2) [[1, 1], [0, 1], [1, 1], [1, 0 :: int]] \<and>
   remove_rows [[1, 1], [0, 1], [1, 1], [1, 0]] = Return [[0, 0], [0, 0], [0, 1], [1, 0]]"
  using remove_rows_spec [of "[[1, 1], [0, 1], [1, 1], [1, 0]]" 2]
  by (simp add: numeral_2_eq_2)

text \<open>
  C8.  Row removal is idempotent: \<open>remove_rows\<close> applied to its own result returns that
  result again.  (On the empty list both the first and the second application raise.)
\<close>

theorem remove_rows_idempotent:
  "bind (remove_rows bm) remove_rows = remove_rows bm \<and>
   (bm \<noteq> [] \<longrightarrow> (\<exists>g. remove_rows bm = Return g \<and> remove_rows g = Return g))"
proof (cases "bm = []")
  case True
  then show ?thesis
    by (simp add: remove_rows_def py_get_def py_index_def)
next
  case False
  define k where "k = length (filter py_all bm)"
  define z where "z = replicate (length (hd bm)) (0::int)"
  define f where "f = filter (\<lambda>row. \<not> py_all row) bm"
  define g where "g = replicate k z @ f"
  have r1: "remove_rows bm = Return g"
    using remove_rows_closed [OF False] by (simp add: g_def k_def z_def f_def)
  have len: "k + length f = length bm"
    using length_filter_split [of py_all bm] by (simp add: k_def f_def)
  have gne: "g \<noteq> []"
    using False len by (auto simp: g_def)
  have ff: "filter (\<lambda>row. \<not> py_all row) f = f" "filter py_all f = []"
    by (simp_all add: f_def)
  have r2: "remove_rows g = Return g"
  proof (cases "length (hd bm) = 0")
    case True
    then have z: "z = []" by (simp add: z_def)
    have "py_all (hd bm)" using True by (simp add: py_all_def)
    moreover have "hd bm \<in> set bm" using False by simp
    ultimately have "filter py_all bm \<noteq> []" by (auto simp: filter_empty_conv)
    then have kpos: "0 < k" by (simp add: k_def)
    then have hg: "hd g = []" by (cases k) (simp_all add: g_def z)
    have pe: "py_all []" by (simp add: py_all_def)
    have "filter py_all g = replicate k []"
      by (simp add: g_def z ff pe)
    moreover have "filter (\<lambda>row. \<not> py_all row) g = f"
      by (simp add: g_def z ff pe)
    ultimately show ?thesis
      using remove_rows_closed [OF gne] hg by (simp add: g_def z)
  next
    case False
    then have "\<not> py_all z" by (simp add: z_def py_all_iff)
    then have "filter py_all g = []" "filter (\<lambda>row. \<not> py_all row) g = g"
      by (simp_all add: g_def ff)
    then show ?thesis
      using remove_rows_closed [OF gne] by simp
  qed
  from r1 r2 show ?thesis by simp
qed

theorem remove_rows_idempotent_witness:
  "[[1, 1], [0, 1], [1, 1], [1, 0 :: int]] \<noteq> [] \<and>
   remove_rows [[1, 1], [0, 1], [1, 1], [1, 0]] = Return [[0, 0], [0, 0], [0, 1], [1, 0]] \<and>
   remove_rows [[0, 0], [0, 0], [0, 1], [1, 0]] = Return [[0, 0], [0, 0], [0, 1], [1, 0]]"
proof -
  have e: "remove_rows [[1, 1], [0, 1], [1, 1], [1, 0]] = Return [[0, 0], [0, 0], [0, 1], [1, 0]]"
    by code_simp
  from remove_rows_idempotent [of "[[1, 1], [0, 1], [1, 1], [1, 0]]"] e
  show ?thesis by simp
qed

section \<open>The hard drop and the merge\<close>

lemma squares_down: "squares (down b) = map (\<lambda>p. p\<lparr>pt_i := pt_i p + 1\<rparr>) (squares b)"
  by (simp add: squares_def down_def)

lemma offsets_down [simp]: "offsets (down b) = offsets b"
  by (simp add: down_def)

lemma squares_eq_Nil [simp]: "squares b = [] \<longleftrightarrow> offsets b = []"
  by (simp add: squares_def)

lemma legal_first_row:
  assumes "legal board b" and "offsets b \<noteq> []"
  shows "pt_i (hd (squares b)) < 33"
proof -
  from assms(2) obtain sq rest where s: "squares b = sq # rest"
    by (cases "squares b") simp_all
  with assms(1) show ?thesis by (simp add: legal_def legal_cell_def)
qed

lemma first_row_down:
  "offsets b \<noteq> [] \<Longrightarrow> pt_i (hd (squares (down b))) = pt_i (hd (squares b)) + 1"
  by (simp add: squares_down hd_map)

lemma drop_loop_run:
  assumes g: "grid_ok (bitmap self)"
  shows "offsets b \<noteq> [] \<Longrightarrow>
         \<exists>n. drop_loop self b = Some ((down ^^ n) b, Return ()) \<and>
             \<not> legal self ((down ^^ n) b) \<and> (\<forall>m<n. legal self ((down ^^ m) b))"
proof (induction "nat (33 - pt_i (hd (squares b)))" arbitrary: b rule: less_induct)
  case less
  show ?case
  proof (cases "legal self b")
    case False
    have "drop_loop self b = Some (b, Return ())"
      by (subst drop_loop.simps) (simp add: check_total [OF g] False)
    with False show ?thesis by (intro exI [of _ 0]) simp
  next
    case True
    have lt: "pt_i (hd (squares b)) < 33"
      using True less.prems by (rule legal_first_row)
    have "nat (33 - pt_i (hd (squares (down b)))) < nat (33 - pt_i (hd (squares b)))"
      using lt first_row_down [OF less.prems] by simp
    moreover have "offsets (down b) \<noteq> []" using less.prems by simp
    ultimately obtain n where n:
      "drop_loop self (down b) = Some ((down ^^ n) (down b), Return ())"
      "\<not> legal self ((down ^^ n) (down b))"
      "\<forall>m<n. legal self ((down ^^ m) (down b))"
      using less.hyps by blast
    have step: "drop_loop self b = drop_loop self (down b)"
      by (subst drop_loop.simps) (simp add: check_total [OF g] True)
    have "\<forall>m<Suc n. legal self ((down ^^ m) b)"
    proof (intro allI impI)
      fix m assume "m < Suc n"
      then show "legal self ((down ^^ m) b)"
        using True n(3) by (cases m) (simp_all add: funpow_swap1)
    qed
    with n(1,2) step show ?thesis
      by (intro exI [of _ "Suc n"]) (simp add: funpow_swap1)
  qed
qed

lemma grid_eqI:
  assumes "grid_ok a" and "grid_ok b"
    and "\<And>r c. r < 33 \<Longrightarrow> c < 12 \<Longrightarrow> a ! r ! c = b ! r ! c"
  shows "a = b"
proof (rule nth_equalityI)
  show "length a = length b" using assms(1,2) by (simp add: grid_ok_def)
next
  fix r assume "r < length a"
  then have r: "r < 33" using assms(1) by (simp add: grid_ok_def)
  show "a ! r = b ! r"
  proof (rule nth_equalityI)
    show "length (a ! r) = length (b ! r)"
      using assms(1,2) r by (simp add: grid_ok_row)
  next
    fix c assume "c < length (a ! r)"
    then have "c < 12" using assms(1) r by (simp add: grid_ok_row)
    with r show "a ! r ! c = b ! r ! c" by (rule assms(3))
  qed
qed

lemma grid_ok_paint: "grid_ok (paint bm sqs)"
  by (simp add: grid_ok_def paint_def list_all_iff)

lemma paint_nth:
  "r < 33 \<Longrightarrow> c < 12 \<Longrightarrow>
   paint bm sqs ! r ! c = (if \<lparr>pt_i = int r, pt_j = int c\<rparr> \<in> set sqs then 1 else bm ! r ! c)"
  by (simp add: paint_def)

lemma paint_Nil: "grid_ok bm \<Longrightarrow> paint bm [] = bm"
  by (rule grid_eqI) (simp_all add: grid_ok_paint paint_nth)

lemma grid_ok_update:
  "grid_ok bm \<Longrightarrow> length row = 12 \<Longrightarrow> grid_ok (bm[r := row])"
  by (auto simp: grid_ok_def list_all_iff dest: set_update_subset_insert [THEN subsetD])

lemma set_cell_in_board:
  assumes "grid_ok bm" and "in_board sq"
  shows "set_cell bm sq =
           Return (bm[nat (pt_i sq) := (bm ! nat (pt_i sq))[nat (pt_j sq) := 1]])"
proof -
  have i: "0 \<le> pt_i sq" "pt_i sq < int (length bm)"
    using assms by (simp_all add: in_board_def grid_ok_def)
  have "nat (pt_i sq) < 33" using assms(2) by (auto simp: in_board_def)
  then have "length (bm ! nat (pt_i sq)) = 12" using assms(1) by (simp add: grid_ok_row)
  then have j: "0 \<le> pt_j sq" "pt_j sq < int (length (bm ! nat (pt_i sq)))"
    using assms(2) by (simp_all add: in_board_def)
  show ?thesis
    by (simp add: set_cell_def py_set_def py_index_in_range [OF i] py_index_in_range [OF j])
qed

lemma point_eq_iff:
  "in_board sq \<Longrightarrow> \<lparr>pt_i = int r, pt_j = int c\<rparr> = sq \<longleftrightarrow> r = nat (pt_i sq) \<and> c = nat (pt_j sq)"
  by (cases sq) (auto simp: in_board_def)

lemma merge_squares_paint:
  "grid_ok bm \<Longrightarrow> list_all in_board sqs \<Longrightarrow> merge_squares bm sqs = Return (paint bm sqs)"
proof (induction sqs arbitrary: bm)
  case Nil
  then show ?case by (simp add: merge_squares_def paint_Nil)
next
  case (Cons sq rest)
  define bm' where "bm' = bm[nat (pt_i sq) := (bm ! nat (pt_i sq))[nat (pt_j sq) := 1]]"
  from Cons.prems have ib: "in_board sq" and rest: "list_all in_board rest" by simp_all
  have rr: "nat (pt_i sq) < 33" "nat (pt_j sq) < 12" using ib by (auto simp: in_board_def)
  have g': "grid_ok bm'"
    unfolding bm'_def using Cons.prems(1) rr
    by (intro grid_ok_update) (simp_all add: grid_ok_row)
  have sc: "set_cell bm sq = Return bm'"
    using set_cell_in_board [OF Cons.prems(1) ib] by (simp add: bm'_def)
  have cellwise: "bm' ! r ! c = (if \<lparr>pt_i = int r, pt_j = int c\<rparr> = sq then 1 else bm ! r ! c)"
    if "r < 33" "c < 12" for r c
  proof -
    have lb: "length bm = 33" using Cons.prems(1) by (simp add: grid_ok_def)
    have lr: "length (bm ! nat (pt_i sq)) = 12"
      using Cons.prems(1) rr by (simp add: grid_ok_row)
    show ?thesis
      using that rr lb lr
      by (auto simp: bm'_def point_eq_iff [OF ib] nth_list_update)
  qed
  have "paint bm' rest = paint bm (sq # rest)"
    by (rule grid_eqI) (auto simp: grid_ok_paint paint_nth cellwise)
  moreover have "merge_squares bm (sq # rest) = merge_squares bm' rest"
    by (simp add: merge_squares_def sc)
  ultimately show ?case using Cons.IH [OF g' rest] by simp
qed

lemma legal_in_board: "legal board b \<Longrightarrow> list_all in_board (squares b)"
  by (auto simp: legal_def legal_cell_def in_board_def list_all_iff)

lemma remove_rows_grid_ok:
  assumes "grid_ok g"
  shows "\<exists>g'. remove_rows g = Return g' \<and> grid_ok g'"
proof -
  have ne: "g \<noteq> []" using assms by (auto simp: grid_ok_def)
  then have "hd g = g ! 0" by (simp add: hd_conv_nth)
  then have h: "length (hd g) = 12" using assms by (simp add: grid_ok_row)
  have "length (filter py_all g) + length (filter (\<lambda>x. \<not> py_all x) g) = 33"
    using length_filter_split [of py_all g] assms by (simp add: grid_ok_def)
  then have "grid_ok (replicate (length (filter py_all g)) (replicate (length (hd g)) 0)
                   @ filter (\<lambda>row. \<not> py_all row) g)"
    using assms h by (auto simp: grid_ok_def list_all_iff)
  with remove_rows_closed [OF ne] show ?thesis by simp
qed

lemma place_run:
  assumes g: "grid_ok (bitmap self)" and ne: "offsets (block self) \<noteq> []"
    and l: "legal self (block self)"
  shows "\<exists>n g'. legal self ((down ^^ n) (block self)) \<and>
                \<not> legal self ((down ^^ Suc n) (block self)) \<and>
                remove_rows (paint (bitmap self) (squares ((down ^^ n) (block self)))) = Return g' \<and>
                grid_ok g' \<and>
                place self =
                  Some ((down ^^ n) (block self),
                        if preview self = [] then ([preview_message], Return None)
                        else ([], Return (Some \<lparr>bitmap = g', block = hd (preview self),
                                                   preview = tl (preview self)\<rparr>)))"
proof -
  from drop_loop_run [OF g ne] obtain k where k:
    "drop_loop self (block self) = Some ((down ^^ k) (block self), Return ())"
    "\<not> legal self ((down ^^ k) (block self))"
    "\<forall>m<k. legal self ((down ^^ m) (block self))"
    by blast
  from k(2) l obtain n where kn: "k = Suc n" by (cases k) simp_all
  define bd where "bd = (down ^^ n) (block self)"
  have up: "up ((down ^^ k) (block self)) = bd"
    by (simp add: kn bd_def inverse_moves)
  have lbd: "legal self bd" using k(3) kn by (simp add: bd_def)
  have m: "merge_squares (bitmap self) (squares bd) = Return (paint (bitmap self) (squares bd))"
    using g legal_in_board [OF lbd] by (rule merge_squares_paint)
  from remove_rows_grid_ok [OF grid_ok_paint] obtain g' where
    g': "remove_rows (paint (bitmap self) (squares bd)) = Return g'" "grid_ok g'"
    by blast
  have "place self =
          Some (bd, if preview self = [] then ([preview_message], Return None)
                    else ([], Return (Some \<lparr>bitmap = g', block = hd (preview self),
                                               preview = tl (preview self)\<rparr>)))"
    by (simp add: place_def k(1) up m g'(1) hd_conv_nth drop_Suc)
  with lbd k(2) g' show ?thesis
    unfolding kn bd_def by blast
qed

lemma py_index_raises: "py_index xs k = Raise e \<Longrightarrow> e = IndexError"
  by (auto simp: py_index_def Let_def split: if_splits)

lemma py_get_raises: "py_get xs k = Raise e \<Longrightarrow> e = IndexError"
  by (cases "py_index xs k") (auto simp: py_get_def dest: py_index_raises)

lemma py_set_raises: "py_set xs k v = Raise e \<Longrightarrow> e = IndexError"
  by (cases "py_index xs k") (auto simp: py_set_def dest: py_index_raises)

lemma check_squares_raises: "check_squares bm sqs = Raise e \<Longrightarrow> e = IndexError"
  by (induction sqs) (auto split: if_splits result.splits dest: py_get_raises)

lemma check_raises: "check board b = Raise e \<Longrightarrow> e = IndexError"
  by (auto simp: check_def dest: check_squares_raises)

lemma drop_loop_raises_aux:
  "drop_loop self b = Some y \<Longrightarrow> \<forall>e. snd y = Raise e \<longrightarrow> e = IndexError"
  by (rule drop_loop.raw_induct
        [where P = "\<lambda>self b y. \<forall>e. snd y = Raise e \<longrightarrow> e = IndexError"])
    (auto split: result.splits if_splits dest: check_raises)

lemma drop_loop_raises: "drop_loop self b = Some (b', Raise e) \<Longrightarrow> e = IndexError"
  using drop_loop_raises_aux [of self b "(b', Raise e)"] by simp

lemma bind_raises:
  "bind m f = Raise e \<Longrightarrow> m = Raise e \<or> (\<exists>x. m = Return x \<and> f x = Raise e)"
  by (cases m) simp_all

lemma set_cell_raises: "set_cell bm sq = Raise e \<Longrightarrow> e = IndexError"
  by (auto simp: set_cell_def split: result.splits dest: py_index_raises py_set_raises)

lemma merge_squares_raises: "merge_squares bm sqs = Raise e \<Longrightarrow> e = IndexError"
  unfolding merge_squares_def
  by (induction sqs arbitrary: bm) (auto split: result.splits dest: set_cell_raises)

lemma remove_rows_raises: "remove_rows bm = Raise e \<Longrightarrow> e = IndexError"
  by (auto simp: remove_rows_def Let_def split: result.splits dest: py_get_raises)

text \<open>
  C2.  \<open>place\<close> and the preview list.  \<open>place\<close> raises nothing but \<open>IndexError\<close>.
  When it returns and the preview list is empty, it has printed the message and returns
  \<open>None\<close>: no exception reports the exhausted preview.  When it returns and the preview list is not empty, it
  returns a new board whose current piece is the head of the old preview and whose
  preview is the tail, one piece shorter.  It returns whenever the grid is 33 x 12, the
  piece has at least one offset and its pose is legal.
\<close>

theorem place_preview:
  "(\<forall>b out e. place self = Some (b, out, Raise e) \<longrightarrow> e = IndexError) \<and>
   (\<forall>b out r. place self = Some (b, out, Return r) \<longrightarrow>
      (if preview self = [] then out = [preview_message] \<and> r = None
       else out = [] \<and>
            (\<exists>nb. r = Some nb \<and> block nb = hd (preview self) \<and>
                  preview nb = tl (preview self) \<and>
                  length (preview nb) + 1 = length (preview self)))) \<and>
   (grid_ok (bitmap self) \<and> offsets (block self) \<noteq> [] \<and> legal self (block self) \<longrightarrow>
      (\<exists>b out r. place self = Some (b, out, Return r)))"
proof (intro conjI allI impI)
  fix b out e
  assume "place self = Some (b, out, Raise e)"
  then show "e = IndexError"
    by (auto simp: place_def Let_def
        split: option.splits result.splits prod.splits if_splits
        dest!: bind_raises dest: drop_loop_raises merge_squares_raises remove_rows_raises)
next
  fix b out r
  assume "place self = Some (b, out, Return r)"
  then show "if preview self = [] then out = [preview_message] \<and> r = None
       else out = [] \<and>
            (\<exists>nb. r = Some nb \<and> block nb = hd (preview self) \<and>
                  preview nb = tl (preview self) \<and>
                  length (preview nb) + 1 = length (preview self))"
    by (auto simp: place_def Let_def hd_conv_nth drop_Suc
        split: option.splits result.splits prod.splits if_splits)
next
  assume "grid_ok (bitmap self) \<and> offsets (block self) \<noteq> [] \<and> legal self (block self)"
  then show "\<exists>b out r. place self = Some (b, out, Return r)"
    using place_run [of self] by (auto split: if_splits)
qed

theorem place_preview_witness:
  "grid_ok (bitmap start_board) \<and> offsets (block start_board) \<noteq> [] \<and>
   legal start_board (block start_board) \<and>
   (\<exists>b out r. place start_board = Some (b, out, Return r))"
proof -
  have g: "grid_ok (bitmap start_board)"
    by (simp add: bitmap_start_board grid_ok_empty)
  have o: "offsets (block start_board) \<noteq> []"
    by (simp add: start_board_def domino_def new_Block_def)
  have l: "legal start_board (block start_board)"
    by (simp add: legal_def start_board_def legal_cell_empty squares_def domino_def
        new_Block_def)
  from place_preview [of start_board] g o l show ?thesis by blast
qed

text \<open>
  An empty preview is not an error of \<open>place\<close>: on the empty 33 x 12 board with the
  domino and an empty preview it drops the piece to the bottom row, prints the message
  and returns \<open>None\<close>; nothing is raised.
\<close>

theorem place_empty_preview_returns_None:
  "preview last_board = [] \<and>
   place last_board =
     Some (domino\<lparr>translation := \<lparr>pt_i = 31, pt_j = 0\<rparr>\<rparr>, [preview_message], Return None)"
  by code_simp

section \<open>The executor\<close>

lemma do_command_token:
  assumes "command \<in> set move_tokens" and "command \<noteq> ''drop''"
  shows "do_command b command = Return (apply_token command b)"
proof -
  have "command \<in> set [''left'', ''right'', ''up'', ''down'', ''rotate'']"
    using assms by (auto simp: move_tokens_def)
  then show ?thesis
    by (auto simp: apply_token_def do_command_def)
qed

lemma legal_block_update [simp]: "legal (self\<lparr>block := b\<rparr>) p = legal self p"
  by (simp add: legal_def)

lemma poses_not_Nil [simp]: "poses b cs \<noteq> []"
  by (cases cs) simp_all

lemma hd_poses [simp]: "hd (poses b cs) = b"
  by (cases cs) simp_all

lemma run_commands_spec:
  assumes g: "grid_ok (bitmap self)" and t: "set cs \<subseteq> set move_tokens"
  shows "run_commands self (cs @ [''drop'']) =
           (case find (\<lambda>p. \<not> legal self p)
                   (tl (poses (block self) (takeWhile (\<lambda>c. c \<noteq> ''drop'') cs))) of
              Some p \<Rightarrow> Some (p, [], Raise InvalidMoveError)
            | None \<Rightarrow>
                place (self\<lparr>block := last (poses (block self)
                                              (takeWhile (\<lambda>c. c \<noteq> ''drop'') cs))\<rparr>))"
  using g t
proof (induction cs arbitrary: self)
  case Nil
  then show ?case by simp
next
  case (Cons c cs)
  show ?case
  proof (cases "c = ''drop''")
    case True
    then show ?thesis by simp
  next
    case False
    define b where "b = apply_token c (block self)"
    define rest where "rest = takeWhile (\<lambda>c. c \<noteq> ''drop'') cs"
    have dc: "do_command (block self) c = Return b"
      using Cons.prems(2) False by (simp add: b_def do_command_token)
    have ck: "check self b = Return (legal self b)"
      using Cons.prems(1) by (rule check_total)
    have rc: "run_commands self ((c # cs) @ [''drop'']) =
                (if \<not> legal self b then Some (b, [], Raise InvalidMoveError)
                 else run_commands (self\<lparr>block := b\<rparr>) (cs @ [''drop'']))"
      using False by (simp add: dc ck)
    have ps: "poses (block self) (takeWhile (\<lambda>c. c \<noteq> ''drop'') (c # cs))
                = block self # poses b rest"
      using False by (simp add: b_def rest_def)
    have g': "grid_ok (bitmap (self\<lparr>block := b\<rparr>))" using Cons.prems(1) by simp
    have t': "set cs \<subseteq> set move_tokens" using Cons.prems(2) by simp
    have ih: "run_commands (self\<lparr>block := b\<rparr>) (cs @ [''drop'']) =
                (case find (\<lambda>p. \<not> legal self p) (tl (poses b rest)) of
                   Some p \<Rightarrow> Some (p, [], Raise InvalidMoveError)
                 | None \<Rightarrow> place (self\<lparr>block := last (poses b rest)\<rparr>))"
      using Cons.IH [OF g' t'] by (simp add: rest_def cong: option.case_cong)
    obtain qs where qs: "poses b rest = b # qs"
      by (cases rest) simp_all
    show ?thesis
      unfolding rc ps ih
      by (simp add: qs cong: option.case_cong)
  qed
qed

lemma takeWhile_snoc_drop:
  "takeWhile (\<lambda>c. c \<noteq> ''drop'') (cs @ [''drop'']) = takeWhile (\<lambda>c. c \<noteq> ''drop'') cs"
  by (induction cs) simp_all

lemma do_commands_closed:
  assumes "grid_ok (bitmap self)" and "set commands \<subseteq> set move_tokens"
  shows "do_commands self commands =
           (let b0 = reset_position (block self);
                ps = poses b0 (takeWhile (\<lambda>c. c \<noteq> ''drop'') commands)
            in if \<not> legal self b0 then Some (b0, commands, [], Raise InvalidMoveError)
               else case find (\<lambda>p. \<not> legal self p) ps of
                      Some p \<Rightarrow> Some (p, commands @ [''drop''], [], Raise InvalidMoveError)
                    | None \<Rightarrow>
                        map_option (\<lambda>(b, out, r). (b, commands @ [''drop''], out, r))
                          (place (self\<lparr>block := last ps\<rparr>)))"
proof -
  define b0 where "b0 = reset_position (block self)"
  define pre where "pre = takeWhile (\<lambda>c. c \<noteq> ''drop'') commands"
  have ck: "check self b0 = Return (legal self b0)"
    using assms(1) by (rule check_total)
  show ?thesis
  proof (cases "legal self b0")
    case False
    then show ?thesis
      by (simp add: do_commands_def Let_def ck [unfolded b0_def] b0_def)
  next
    case True
    have g': "grid_ok (bitmap (self\<lparr>block := b0\<rparr>))" using assms(1) by simp
    have t': "set (commands @ [''drop'']) \<subseteq> set move_tokens"
      using assms(2) by (simp add: move_tokens_def)
    obtain qs where qs: "poses b0 pre = b0 # qs"
      by (cases pre) simp_all
    have "run_commands (self\<lparr>block := b0\<rparr>) (commands @ [''drop'']) =
            (case find (\<lambda>p. \<not> legal self p) (tl (poses b0 pre)) of
               Some p \<Rightarrow> Some (p, [], Raise InvalidMoveError)
             | None \<Rightarrow> place (self\<lparr>block := last (poses b0 pre)\<rparr>))"
      using run_commands_spec [OF g' assms(2)]
      by (simp add: pre_def cong: option.case_cong)
    then have "run_commands (self\<lparr>block := b0\<rparr>) (commands @ [''drop'']) =
            (case find (\<lambda>p. \<not> legal self p) (poses b0 pre) of
               Some p \<Rightarrow> Some (p, [], Raise InvalidMoveError)
             | None \<Rightarrow> place (self\<lparr>block := last (poses b0 pre)\<rparr>))"
      using True by (simp add: qs)
    then show ?thesis
      using True
      by (simp add: do_commands_def Let_def ck b0_def [symmetric]
          pre_def [symmetric] split: option.splits)
  qed
qed

text \<open>
  C3.  On a board with a 33 x 12 grid and a move list of tokens, \<open>do_commands\<close> resets the
  piece and raises \<open>InvalidMoveError\<close> when the spawn pose is illegal (the list is then
  unchanged).  Otherwise only the tokens before the first \<open>'drop'\<close> count: each is
  applied without a guard, the first illegal pose so reached raises \<open>InvalidMoveError\<close>
  with the piece left in that pose and no board returned, and when every pose is legal
  the result is that of \<open>place\<close> at the last pose.  An implicit \<open>'drop'\<close> ends the list.
\<close>

theorem do_commands_spec:
  assumes "grid_ok (bitmap self)" and "set commands \<subseteq> set move_tokens"
  shows "do_commands self commands =
           (let b0 = reset_position (block self);
                ps = poses b0 (takeWhile (\<lambda>c. c \<noteq> ''drop'') commands)
            in if \<not> legal self b0 then Some (b0, commands, [], Raise InvalidMoveError)
               else case find (\<lambda>p. \<not> legal self p) ps of
                      Some p \<Rightarrow> Some (p, commands @ [''drop''], [], Raise InvalidMoveError)
                    | None \<Rightarrow>
                        map_option (\<lambda>(b, out, r). (b, commands @ [''drop''], out, r))
                          (place (self\<lparr>block := last ps\<rparr>)))"
  using assms by (rule do_commands_closed)

theorem do_commands_spec_witness:
  "grid_ok (bitmap start_board) \<and>
   set [''left'', ''left'', ''left'', ''left'', ''left'', ''left'', ''down''] \<subseteq> set move_tokens \<and>
   set [''down'', ''drop'', ''up'', ''up'', ''up''] \<subseteq> set move_tokens \<and>
   do_commands start_board [''left'', ''left'', ''left'', ''left'', ''left'', ''left'', ''down''] =
     Some (domino\<lparr>translation := \<lparr>pt_i = 0, pt_j = - 6\<rparr>\<rparr>,
           [''left'', ''left'', ''left'', ''left'', ''left'', ''left'', ''down'', ''drop''], [],
           Raise InvalidMoveError) \<and>
   do_commands start_board [''down'', ''drop'', ''up'', ''up'', ''up''] =
     Some (domino\<lparr>translation := \<lparr>pt_i = 31, pt_j = 0\<rparr>\<rparr>,
           [''down'', ''drop'', ''up'', ''up'', ''up'', ''drop''], [],
           Return (Some \<lparr>bitmap = empty_grid[32 := [0, 0, 0, 0, 0, 1, 1, 0, 0, 0, 0, 0]],
                         block = domino, preview = []\<rparr>))"
proof -
  have g: "grid_ok (bitmap start_board)"
    by (simp add: bitmap_start_board grid_ok_empty)
  have t1: "set [''left'', ''left'', ''left'', ''left'', ''left'', ''left'', ''down'']
              \<subseteq> set move_tokens"
    by (simp add: move_tokens_def)
  have t2: "set [''down'', ''drop'', ''up'', ''up'', ''up''] \<subseteq> set move_tokens"
    by (simp add: move_tokens_def)
  have e1: "(let b0 = reset_position (block start_board);
                ps = poses b0 (takeWhile (\<lambda>c. c \<noteq> ''drop'')
                       [''left'', ''left'', ''left'', ''left'', ''left'', ''left'', ''down''])
            in if \<not> legal start_board b0
               then Some (b0, [''left'', ''left'', ''left'', ''left'', ''left'', ''left'', ''down''],
                          [], Raise InvalidMoveError)
               else case find (\<lambda>p. \<not> legal start_board p) ps of
                      Some p \<Rightarrow>
                        Some (p, [''left'', ''left'', ''left'', ''left'', ''left'', ''left'', ''down'']
                                 @ [''drop''], [], Raise InvalidMoveError)
                    | None \<Rightarrow>
                        map_option
                          (\<lambda>(b, out, r).
                             (b, [''left'', ''left'', ''left'', ''left'', ''left'', ''left'', ''down'']
                                 @ [''drop''], out, r))
                          (place (start_board\<lparr>block := last ps\<rparr>))) =
            Some (domino\<lparr>translation := \<lparr>pt_i = 0, pt_j = - 6\<rparr>\<rparr>,
                  [''left'', ''left'', ''left'', ''left'', ''left'', ''left'', ''down'', ''drop''], [],
                  Raise InvalidMoveError)"
    by code_simp
  have e2: "(let b0 = reset_position (block start_board);
                ps = poses b0 (takeWhile (\<lambda>c. c \<noteq> ''drop'')
                       [''down'', ''drop'', ''up'', ''up'', ''up''])
            in if \<not> legal start_board b0
               then Some (b0, [''down'', ''drop'', ''up'', ''up'', ''up''],
                          [], Raise InvalidMoveError)
               else case find (\<lambda>p. \<not> legal start_board p) ps of
                      Some p \<Rightarrow>
                        Some (p, [''down'', ''drop'', ''up'', ''up'', ''up'']
                                 @ [''drop''], [], Raise InvalidMoveError)
                    | None \<Rightarrow>
                        map_option
                          (\<lambda>(b, out, r).
                             (b, [''down'', ''drop'', ''up'', ''up'', ''up'']
                                 @ [''drop''], out, r))
                          (place (start_board\<lparr>block := last ps\<rparr>))) =
            Some (domino\<lparr>translation := \<lparr>pt_i = 31, pt_j = 0\<rparr>\<rparr>,
                  [''down'', ''drop'', ''up'', ''up'', ''up'', ''drop''], [],
                  Return (Some \<lparr>bitmap = empty_grid[32 := [0, 0, 0, 0, 0, 1, 1, 0, 0, 0, 0, 0]],
                                block = domino, preview = []\<rparr>))"
    by code_simp
  show ?thesis
    using g t1 t2 do_commands_spec [OF g t1, unfolded e1] do_commands_spec [OF g t2, unfolded e2]
    by blast
qed

section \<open>The commit on the store\<close>

lemma load_append: "refs_ok h g \<Longrightarrow> load (h @ h') g = load h g"
  by (simp add: load_def refs_ok_def list_all_iff nth_append)

lemma load_app: "load h (g1 @ g2) = load h g1 @ load h g2"
  by (simp add: load_def)

lemma load_fresh: "load (h @ bm) [length h ..< length h + length bm] = bm"
  by (rule nth_equalityI) (simp_all add: load_def nth_append)

lemma copy_rows_closed:
  "refs_ok h g \<Longrightarrow> copy_rows h g = (h @ load h g, [length h ..< length h + length g])"
proof (induction g arbitrary: h)
  case Nil
  then show ?case by (simp add: load_def)
next
  case (Cons a rest)
  have r: "refs_ok h rest" and a: "a < length h"
    using Cons.prems by (simp_all add: refs_ok_def)
  have r': "refs_ok (h @ [h ! a]) rest"
    using r by (auto simp: refs_ok_def list_all_iff)
  have "load (h @ [h ! a]) rest = load h rest"
    using r by (rule load_append)
  then have c: "copy_rows (h @ [h ! a]) rest =
               (h @ (h ! a) # load h rest, [Suc (length h) ..< Suc (length h) + length rest])"
    using Cons.IH [OF r'] by simp
  have u: "[length h ..< length h + length (a # rest)]
             = length h # [Suc (length h) ..< Suc (length h) + length rest]"
    by (subst upt_rec) (simp del: upt_Suc)
  have l: "load h (a # rest) = (h ! a) # load h rest"
    by (simp add: load_def)
  show ?case
    unfolding u l by (simp add: c del: upt_Suc)
qed

lemma set_cell_length: "set_cell bm sq = Return bm' \<Longrightarrow> length bm' = length bm"
  by (auto simp: set_cell_def split: result.splits)

lemma py_index_upt:
  "py_index [n ..< n + m] k = py_index bm k" if "length bm = m"
  using that by (simp add: py_index_def)

lemma py_index_bound: "py_index xs k = Return r \<Longrightarrow> r < length xs"
  by (auto simp: py_index_def Let_def split: if_splits)

lemma set_cell_h_sim:
  "set_cell_h [length h ..< length h + length bm] (h @ bm) sq =
     (case set_cell bm sq of Raise e \<Rightarrow> Raise e | Return bm' \<Rightarrow> Return (h @ bm'))"
proof (cases "py_index bm (pt_i sq)")
  case (Raise e)
  then show ?thesis
    by (simp add: set_cell_h_def set_cell_def py_get_def py_index_upt [of bm])
next
  case (Return r)
  then have r: "r < length bm" by (rule py_index_bound)
  then show ?thesis
    using Return
    by (simp add: set_cell_h_def set_cell_def py_get_def py_index_upt [of bm] nth_append
        list_update_append split: result.splits)
qed

lemma merge_squares_h_sim:
  "for_each sqs (set_cell_h [length h ..< length h + length bm]) (h @ bm) =
     (case merge_squares bm sqs of Raise e \<Rightarrow> Raise e | Return bm' \<Rightarrow> Return (h @ bm'))"
proof (induction sqs arbitrary: bm)
  case Nil
  show ?case by (simp add: merge_squares_def)
next
  case (Cons sq rest)
  show ?case
  proof (cases "set_cell bm sq")
    case (Raise e)
    then show ?thesis by (simp add: merge_squares_def set_cell_h_sim)
  next
    case (Return bm')
    then have "length bm' = length bm" by (rule set_cell_length)
    with Cons.IH [of bm'] Return show ?thesis
      by (simp add: merge_squares_def set_cell_h_sim)
  qed
qed

lemma merge_squares_length: "merge_squares bm sqs = Return bm' \<Longrightarrow> length bm' = length bm"
  unfolding merge_squares_def
  by (induction sqs arbitrary: bm) (auto split: result.splits dest: set_cell_length)

lemma load_filter: "load H (filter (\<lambda>a. P (H ! a)) g) = filter P (load H g)"
  by (simp add: load_def filter_map comp_def)

lemma remove_rows_h_sim:
  "case remove_rows bm of
     Raise e \<Rightarrow> remove_rows_h (h @ bm) [length h ..< length h + length bm] = Raise e
   | Return g' \<Rightarrow>
       (\<exists>h3 ref'. remove_rows_h (h @ bm) [length h ..< length h + length bm] = Return (h3, ref') \<and>
                  take (length h) h3 = h \<and> load h3 ref' = g')"
proof (cases "bm = []")
  case True
  then show ?thesis
    by (simp add: remove_rows_def remove_rows_h_def py_get_def py_index_def)
next
  case False
  define new where "new = [length h ..< length h + length bm]"
  define H where "H = h @ bm"
  define kept where "kept = filter (\<lambda>a. \<not> py_all (H ! a)) new"
  define k where "k = nat (int (length new) - int (length kept))"
  have ln: "length new = length bm" by (simp add: new_def)
  have ld: "load H new = bm" unfolding H_def new_def by (rule load_fresh)
  have g0: "py_get new 0 = Return (length h)"
    using False by (simp add: py_get_def py_index_def new_def upt_conv_Cons)
  have b0: "py_get bm 0 = Return (hd bm)"
    using False by (cases bm) (simp_all add: py_get_def py_index_def)
  have c: "H ! length h = hd bm"
    using False by (simp add: H_def nth_append hd_conv_nth)
  have lk: "load H kept = filter (\<lambda>row. \<not> py_all row) bm"
    unfolding kept_def using load_filter [of H "\<lambda>row. \<not> py_all row" new] by (simp add: ld)
  then have lenk: "length kept = length (filter (\<lambda>row. \<not> py_all row) bm)"
    by (metis length_map load_def)
  have rk: "refs_ok H kept"
    by (auto simp: refs_ok_def kept_def new_def H_def list_all_iff)
  have rh: "remove_rows_h H new =
              Return (H @ replicate k (replicate (length (hd bm)) 0),
                      [length H ..< length H + k] @ kept)"
    by (simp add: remove_rows_h_def g0 c Let_def kept_def k_def)
  have rv: "remove_rows bm =
              Return (replicate k (replicate (length (hd bm)) 0)
                      @ filter (\<lambda>row. \<not> py_all row) bm)"
    by (simp add: remove_rows_def b0 Let_def k_def ln lenk)
  have "load (H @ replicate k (replicate (length (hd bm)) 0)) ([length H ..< length H + k] @ kept)
          = replicate k (replicate (length (hd bm)) 0) @ filter (\<lambda>row. \<not> py_all row) bm"
    using load_fresh [of H "replicate k (replicate (length (hd bm)) 0)"]
      load_append [OF rk, of "replicate k (replicate (length (hd bm)) 0)"] lk
    by (simp add: load_app)
  moreover have "take (length h) (H @ replicate k (replicate (length (hd bm)) 0)) = h"
    by (simp add: H_def)
  ultimately show ?thesis
    using rh rv by (simp add: H_def new_def)
qed

lemma view_fields:
  "bitmap (view h self) = load h (bitmap_ref self)"
  "block (view h self) = hblock self"
  "preview (view h self) = hpreview self"
  by (simp_all add: view_def)

lemma view_make:
  "view h \<lparr>bitmap_ref = g, hblock = b, hpreview = p\<rparr> = \<lparr>bitmap = load h g, block = b, preview = p\<rparr>"
  by (simp add: view_def)

lemma place_h_sim:
  assumes r: "refs_ok h (bitmap_ref self)"
  shows "map_option view_result (place_h h self) = place (view h self) \<and>
         (\<forall>h' b out res. place_h h self = Some (h', b, out, res) \<longrightarrow> take (length h) h' = h)"
proof (cases "drop_loop (view h self) (hblock self)")
  case None
  then show ?thesis by (simp add: place_h_def place_def view_fields)
next
  case (Some x)
  obtain b d where x: "x = (b, d)" by (cases x)
  show ?thesis
  proof (cases d)
    case (Raise e)
    then show ?thesis
      using Some x by (simp add: place_h_def place_def view_fields view_result_def)
  next
    case (Return u)
    define bm where "bm = load h (bitmap_ref self)"
    define sqs where "sqs = squares (up b)"
    have dl: "drop_loop (view h self) (hblock self) = Some (b, Return u)"
      using Some x Return by simp
    have dl': "drop_loop (view h self) (block (view h self)) = Some (b, Return u)"
      using dl by (simp add: view_fields)
    have cp: "copy_rows h (bitmap_ref self) = (h @ bm, [length h ..< length h + length bm])"
      using copy_rows_closed [OF r] by (simp add: bm_def load_def)
    have vb: "bitmap (view h self) = bm" "preview (view h self) = hpreview self"
      by (simp_all add: view_fields bm_def)
    show ?thesis
    proof (cases "merge_squares bm sqs")
      case (Raise e)
      have "for_each sqs (set_cell_h [length h ..< length h + length bm]) (h @ bm) = Raise e"
        using merge_squares_h_sim [where sqs = sqs and h = h and bm = bm] Raise by simp
      then show ?thesis
        using Raise
        by (simp add: place_h_def place_def dl dl' cp vb sqs_def [symmetric] view_result_def)
    next
      case merged: (Return bm')
      have len: "length bm' = length bm" using merged by (rule merge_squares_length)
      have fe: "for_each sqs (set_cell_h [length h ..< length h + length bm]) (h @ bm)
                  = Return (h @ bm')"
        using merge_squares_h_sim [where sqs = sqs and h = h and bm = bm] merged by simp
      show ?thesis
      proof (cases "remove_rows bm'")
        case (Raise e)
        have "remove_rows_h (h @ bm') [length h ..< length h + length bm] = Raise e"
          using remove_rows_h_sim [where bm = bm' and h = h] Raise by (simp add: len)
        then show ?thesis
          using Raise merged
          by (simp add: place_h_def place_def dl dl' cp vb sqs_def [symmetric] fe
              view_result_def)
      next
        case removed: (Return g')
        obtain h3 ref' where rh:
          "remove_rows_h (h @ bm') [length h ..< length h + length bm] = Return (h3, ref')"
          "take (length h) h3 = h" "load h3 ref' = g'"
          using remove_rows_h_sim [where bm = bm' and h = h] removed by (auto simp: len)
        show ?thesis
          using removed merged rh(2,3)
          by (auto simp: place_h_def place_def dl dl' cp vb sqs_def [symmetric] fe rh(1)
              view_result_def view_make Let_def)
      qed
    qed
  qed
qed

lemma load_take:
  assumes "refs_ok h g" and "take (length h) h' = h"
  shows "load h' g = load h g"
proof -
  have "h' = h @ drop (length h) h'"
    using assms(2) by (metis append_take_drop_id)
  then show ?thesis
    using load_append [OF assms(1), of "drop (length h) h'"] by simp
qed

text \<open>
  C9.  On the store, whatever \<open>place\<close> returns or raises, every row object that existed
  before the call is unchanged, so the board's own grid reads as before; and what
  \<open>place\<close> does on the store is what it does on the grid values.  When the grid is
  33 x 12, the piece (of at least one offset) is in a legal pose and the preview is not
  empty, it returns a board whose grid is \<open>remove_rows\<close> of the old grid with the cells of
  the dropped piece set to 1, where the dropped pose is legal and one row further down is
  not.
\<close>

theorem place_keeps_original_grid:
  assumes "refs_ok h (bitmap_ref self)"
  shows "(\<forall>h' b out r. place_h h self = Some (h', b, out, r) \<longrightarrow>
            take (length h) h' = h \<and> load h' (bitmap_ref self) = load h (bitmap_ref self)) \<and>
         map_option view_result (place_h h self) = place (view h self) \<and>
         (grid_ok (load h (bitmap_ref self)) \<and> offsets (hblock self) \<noteq> [] \<and>
          legal (view h self) (hblock self) \<and> hpreview self \<noteq> [] \<longrightarrow>
            (\<exists>n h' nb g.
               place_h h self = Some (h', (down ^^ n) (hblock self), [], Return (Some nb)) \<and>
               legal (view h self) ((down ^^ n) (hblock self)) \<and>
               \<not> legal (view h self) ((down ^^ Suc n) (hblock self)) \<and>
               remove_rows (paint (load h (bitmap_ref self))
                              (squares ((down ^^ n) (hblock self)))) = Return g \<and>
               load h' (bitmap_ref nb) = g \<and>
               load h' (bitmap_ref self) = load h (bitmap_ref self)))"
proof (intro conjI allI impI)
  fix h' b out r
  assume p: "place_h h self = Some (h', b, out, r)"
  with place_h_sim [OF assms] show t: "take (length h) h' = h" by blast
  with assms show "load h' (bitmap_ref self) = load h (bitmap_ref self)"
    by (rule load_take)
next
  show "map_option view_result (place_h h self) = place (view h self)"
    using place_h_sim [OF assms] by blast
next
  assume a: "grid_ok (load h (bitmap_ref self)) \<and> offsets (hblock self) \<noteq> [] \<and>
          legal (view h self) (hblock self) \<and> hpreview self \<noteq> []"
  have v: "bitmap (view h self) = load h (bitmap_ref self)" "block (view h self) = hblock self"
    "preview (view h self) = hpreview self"
    by (simp_all add: view_def)
  from a have "grid_ok (bitmap (view h self))" "offsets (block (view h self)) \<noteq> []"
    "legal (view h self) (block (view h self))"
    by (simp_all add: v)
  from place_run [OF this] obtain n g where ng:
    "legal (view h self) ((down ^^ n) (hblock self))"
    "\<not> legal (view h self) ((down ^^ Suc n) (hblock self))"
    "remove_rows (paint (load h (bitmap_ref self)) (squares ((down ^^ n) (hblock self)))) = Return g"
    "place (view h self) =
       Some ((down ^^ n) (hblock self), [],
             Return (Some \<lparr>bitmap = g, block = hd (hpreview self), preview = tl (hpreview self)\<rparr>))"
    using a unfolding v by auto
  from place_h_sim [OF assms] ng(4) obtain x where
    x: "place_h h self = Some x"
       "view_result x = ((down ^^ n) (hblock self), [],
             Return (Some \<lparr>bitmap = g, block = hd (hpreview self), preview = tl (hpreview self)\<rparr>))"
    by (cases "place_h h self") auto
  obtain h' b out r where xx: "x = (h', b, out, r)" by (cases x)
  from x(2) xx obtain nb where nb: "b = (down ^^ n) (hblock self)" "out = []" "r = Return (Some nb)"
    "view h' nb = \<lparr>bitmap = g, block = hd (hpreview self), preview = tl (hpreview self)\<rparr>"
    by (auto simp: view_result_def split: result.splits option.splits)
  from nb(4) have lg: "load h' (bitmap_ref nb) = g"
    by (simp add: view_def)
  have "take (length h) h' = h"
    using place_h_sim [OF assms] x(1) xx by blast
  with assms have "load h' (bitmap_ref self) = load h (bitmap_ref self)"
    by (rule load_take)
  with x(1) xx nb(1,2,3) ng(1,2,3) lg
  show "\<exists>n h' nb g.
               place_h h self = Some (h', (down ^^ n) (hblock self), [], Return (Some nb)) \<and>
               legal (view h self) ((down ^^ n) (hblock self)) \<and>
               \<not> legal (view h self) ((down ^^ Suc n) (hblock self)) \<and>
               remove_rows (paint (load h (bitmap_ref self))
                              (squares ((down ^^ n) (hblock self)))) = Return g \<and>
               load h' (bitmap_ref nb) = g \<and>
               load h' (bitmap_ref self) = load h (bitmap_ref self)"
    by blast
qed

theorem place_keeps_original_grid_witness:
  "refs_ok empty_grid (bitmap_ref store_board) \<and>
   grid_ok (load empty_grid (bitmap_ref store_board)) \<and>
   offsets (hblock store_board) \<noteq> [] \<and>
   legal (view empty_grid store_board) (hblock store_board) \<and>
   hpreview store_board \<noteq> [] \<and>
   place_h empty_grid store_board =
     Some (empty_grid @ empty_grid[32 := [0, 0, 0, 0, 0, 1, 1, 0, 0, 0, 0, 0]],
           domino\<lparr>translation := \<lparr>pt_i = 31, pt_j = 0\<rparr>\<rparr>, [],
           Return (Some \<lparr>bitmap_ref = [33..<66], hblock = domino, hpreview = []\<rparr>)) \<and>
   load (empty_grid @ empty_grid[32 := [0, 0, 0, 0, 0, 1, 1, 0, 0, 0, 0, 0]])
     (bitmap_ref store_board) = load empty_grid (bitmap_ref store_board) \<and>
   (\<exists>n h' nb g.
      place_h empty_grid store_board =
        Some (h', (down ^^ n) (hblock store_board), [], Return (Some nb)) \<and>
      remove_rows (paint (load empty_grid (bitmap_ref store_board))
                     (squares ((down ^^ n) (hblock store_board)))) = Return g \<and>
      load h' (bitmap_ref nb) = g)"
proof -
  have r: "refs_ok empty_grid (bitmap_ref store_board)"
    by code_simp
  have a: "grid_ok (load empty_grid (bitmap_ref store_board))"
          "offsets (hblock store_board) \<noteq> []"
          "legal (view empty_grid store_board) (hblock store_board)"
          "hpreview store_board \<noteq> []"
    by code_simp+
  have e: "place_h empty_grid store_board =
     Some (empty_grid @ empty_grid[32 := [0, 0, 0, 0, 0, 1, 1, 0, 0, 0, 0, 0]],
           domino\<lparr>translation := \<lparr>pt_i = 31, pt_j = 0\<rparr>\<rparr>, [],
           Return (Some \<lparr>bitmap_ref = [33..<66], hblock = domino, hpreview = []\<rparr>))"
    by code_simp
  note t = place_keeps_original_grid [OF r]
  from t e have
    "load (empty_grid @ empty_grid[32 := [0, 0, 0, 0, 0, 1, 1, 0, 0, 0, 0, 0]])
       (bitmap_ref store_board) = load empty_grid (bitmap_ref store_board)"
    by blast
  moreover from t a have
    "\<exists>n h' nb g.
      place_h empty_grid store_board =
        Some (h', (down ^^ n) (hblock store_board), [], Return (Some nb)) \<and>
      remove_rows (paint (load empty_grid (bitmap_ref store_board))
                     (squares ((down ^^ n) (hblock store_board)))) = Return g \<and>
      load h' (bitmap_ref nb) = g"
    by blast
  ultimately show ?thesis using r a e by blast
qed

section \<open>The probing loops\<close>

lemma check_block_update [simp]: "check (board\<lparr>block := b\<rparr>) p = check board p"
  by (simp add: check_def)

lemma squares_left: "squares (left b) = map (\<lambda>p. p\<lparr>pt_j := pt_j p - 1\<rparr>) (squares b)"
  by (simp add: squares_def left_def)

lemma shape_moves [simp]:
  "offsets (left b) = offsets b" "center (left b) = center b"
  "offsets (right b) = offsets b" "center (right b) = center b"
  "offsets (up b) = offsets b" "center (up b) = center b"
  "center (down b) = center b"
  "offsets (rotate_block b) = offsets b" "center (rotate_block b) = center b"
  by (simp_all add: left_def right_def up_def down_def rotate_block_def)

lemma legal_first_col:
  assumes "legal board b" and "offsets b \<noteq> []"
  shows "0 \<le> pt_j (hd (squares b))"
proof -
  from assms(2) obtain sq rest where s: "squares b = sq # rest"
    by (cases "squares b") simp_all
  with assms(1) show ?thesis by (simp add: legal_def legal_cell_def)
qed

lemma first_col_left:
  "offsets b \<noteq> [] \<Longrightarrow> pt_j (hd (squares (left b))) = pt_j (hd (squares b)) - 1"
  by (simp add: squares_left hd_map)

lemma left_loop_run:
  "grid_ok (bitmap board) \<Longrightarrow> offsets (block board) \<noteq> [] \<Longrightarrow>
         \<exists>n b. left_loop board moves =
                  Some (board\<lparr>block := b\<rparr>, Return (moves @ replicate n ''left'')) \<and>
               center b = center (block board) \<and> offsets b = offsets (block board)"
proof (induction "nat (pt_j (hd (squares (block board))) + 1)" arbitrary: board moves
    rule: less_induct)
  case less
  define b1 where "b1 = left (block board)"
  have ck: "check board b1 = Return (legal board b1)"
    using less.prems(1) by (rule check_total)
  show ?case
  proof (cases "legal board b1")
    case False
    have undo: "right b1 = block board" by (simp add: b1_def inverse_moves)
    have "left_loop board moves = Some (board\<lparr>block := block board\<rparr>, Return moves)"
      by (subst left_loop.simps)
        (simp add: checked_left_def b1_def [symmetric] ck False undo)
    then show ?thesis
      by (intro exI [of _ 0] exI [of _ "block board"]) simp
  next
    case True
    have ne: "offsets b1 \<noteq> []" using less.prems(2) by (simp add: b1_def)
    have "0 \<le> pt_j (hd (squares b1))" using True ne by (rule legal_first_col)
    then have m: "nat (pt_j (hd (squares (block (board\<lparr>block := b1\<rparr>)))) + 1)
                    < nat (pt_j (hd (squares (block board))) + 1)"
      using first_col_left [OF less.prems(2)] by (simp add: b1_def)
    have g1: "grid_ok (bitmap (board\<lparr>block := b1\<rparr>))" using less.prems(1) by simp
    have ne1: "offsets (block (board\<lparr>block := b1\<rparr>)) \<noteq> []" using ne by simp
    from less.hyps [OF m g1 ne1, of "moves @ [''left'']"]
    obtain n b where nb:
      "left_loop (board\<lparr>block := b1\<rparr>) (moves @ [''left'']) =
         Some (board\<lparr>block := b\<rparr>, Return (moves @ ''left'' # replicate n ''left''))"
      "center b = center b1" "offsets b = offsets b1"
      by auto
    have "left_loop board moves = left_loop (board\<lparr>block := b1\<rparr>) (moves @ [''left''])"
      by (subst left_loop.simps) (simp add: checked_left_def b1_def [symmetric] ck True)
    with nb show ?thesis
      by (intro exI [of _ "Suc n"] exI [of _ b]) (simp add: b1_def)
  qed
qed

lemma down_loop_run:
  "grid_ok (bitmap board) \<Longrightarrow> offsets (block board) \<noteq> [] \<Longrightarrow>
         \<exists>n b. down_loop board moves =
                  Some (board\<lparr>block := b\<rparr>, Return (moves @ replicate n ''down'')) \<and>
               center b = center (block board) \<and> offsets b = offsets (block board)"
proof (induction "nat (33 - pt_i (hd (squares (block board))))" arbitrary: board moves
    rule: less_induct)
  case less
  define b1 where "b1 = down (block board)"
  have ck: "check board b1 = Return (legal board b1)"
    using less.prems(1) by (rule check_total)
  show ?case
  proof (cases "legal board b1")
    case False
    have undo: "up b1 = block board" by (simp add: b1_def inverse_moves)
    have "down_loop board moves = Some (board\<lparr>block := block board\<rparr>, Return moves)"
      by (subst down_loop.simps)
        (simp add: checked_down_def b1_def [symmetric] ck False undo)
    then show ?thesis
      by (intro exI [of _ 0] exI [of _ "block board"]) simp
  next
    case True
    have ne: "offsets b1 \<noteq> []" using less.prems(2) by (simp add: b1_def)
    have "pt_i (hd (squares b1)) < 33" using True ne by (rule legal_first_row)
    then have m: "nat (33 - pt_i (hd (squares (block (board\<lparr>block := b1\<rparr>)))))
                    < nat (33 - pt_i (hd (squares (block board))))"
      using first_row_down [OF less.prems(2)] by (simp add: b1_def)
    have g1: "grid_ok (bitmap (board\<lparr>block := b1\<rparr>))" using less.prems(1) by simp
    have ne1: "offsets (block (board\<lparr>block := b1\<rparr>)) \<noteq> []" using ne by simp
    from less.hyps [OF m g1 ne1, of "moves @ [''down'']"]
    obtain n b where nb:
      "down_loop (board\<lparr>block := b1\<rparr>) (moves @ [''down'']) =
         Some (board\<lparr>block := b\<rparr>, Return (moves @ ''down'' # replicate n ''down''))"
      "center b = center b1" "offsets b = offsets b1"
      by auto
    have "down_loop board moves = down_loop (board\<lparr>block := b1\<rparr>) (moves @ [''down''])"
      by (subst down_loop.simps) (simp add: checked_down_def b1_def [symmetric] ck True)
    with nb show ?thesis
      by (intro exI [of _ "Suc n"] exI [of _ b]) (simp add: b1_def)
  qed
qed

section \<open>The features are total on a 33 x 12 grid\<close>

lemma size_of_grid_ok: "grid_ok bm \<Longrightarrow> size_of bm = Return (33, 12)"
  by (simp add: size_of_def py_get_in_range grid_ok_def grid_ok_row)

lemma cell_grid_ok:
  "grid_ok bm \<Longrightarrow> row < 33 \<Longrightarrow> col < 12 \<Longrightarrow> cell bm row col = Return (bm ! row ! col)"
  by (simp add: cell_def py_get_in_range grid_ok_def grid_ok_row)

lemma for_each_returns:
  assumes "\<And>s x. x \<in> set xs \<Longrightarrow> \<exists>s'. body s x = Return s'"
  shows "\<exists>s'. for_each xs body s = Return s'"
  using assms
proof (induction xs arbitrary: s)
  case Nil
  show ?case by simp
next
  case (Cons x xs)
  from Cons.prems [of x s] obtain s1 where s1: "body s x = Return s1" by auto
  from Cons.IH [of s1] Cons.prems obtain s' where "for_each xs body s1 = Return s'" by auto
  with s1 show ?case by simp
qed

lemma num_holes_total: "grid_ok bm \<Longrightarrow> \<exists>n. num_holes bm = Return n"
proof -
  assume g: "grid_ok bm"
  have inner: "\<exists>s'. for_each [0..<12]
                  (\<lambda>(holes, column_occupied) col.
                     bind (cell bm row col) (\<lambda>v.
                       if v = 0
                       then (if column_occupied ! col \<noteq> (0::int)
                             then Return (holes + 1, column_occupied)
                             else Return (holes, column_occupied))
                       else Return (holes, column_occupied[col := column_occupied ! col + 1])))
                  st = Return s'" if "row < 33" for row and st :: "int \<times> int list"
    by (rule for_each_returns) (auto simp: cell_grid_ok [OF g that] split: prod.splits)
  have "\<exists>s'. for_each [0..<33]
               (\<lambda>st row. for_each [0..<12]
                  (\<lambda>(holes, column_occupied) col.
                     bind (cell bm row col) (\<lambda>v.
                       if v = 0
                       then (if column_occupied ! col \<noteq> (0::int)
                             then Return (holes + 1, column_occupied)
                             else Return (holes, column_occupied))
                       else Return (holes, column_occupied[col := column_occupied ! col + 1])))
                  st)
               (0::int, replicate 12 0) = Return s'"
    by (rule for_each_returns) (simp add: inner del: split_paired_Ex)
  then show ?thesis
    by (auto simp: num_holes_def size_of_grid_ok [OF g] split: prod.splits)
qed

lemma col_scan_total:
  "grid_ok bm \<Longrightarrow> col < 12 \<Longrightarrow> set rs \<subseteq> {..<33} \<Longrightarrow> \<exists>h. col_scan bm rows col rs = Return h"
  by (induction rs) (auto simp: cell_grid_ok)

lemma col_height_total: "grid_ok bm \<Longrightarrow> col < 12 \<Longrightarrow> \<exists>h. col_height bm col = Return h"
  by (auto simp: col_height_def size_of_grid_ok intro!: col_scan_total)

lemma max_height_total: "grid_ok bm \<Longrightarrow> \<exists>n. max_height bm = Return n"
proof -
  assume g: "grid_ok bm"
  have "\<exists>s'. for_each [0..<12]
         (\<lambda>m_height col. bind (col_height bm col) (\<lambda>h. Return (max m_height h))) 0 = Return s'"
  proof (rule for_each_returns)
    fix s :: int and x assume "x \<in> set [0..<12]"
    then have "x < 12" by simp
    from col_height_total [OF g this] show "\<exists>s'. bind (col_height bm x) (\<lambda>h. Return (max s h)) = Return s'"
      by auto
  qed
  then show ?thesis by (simp add: max_height_def size_of_grid_ok [OF g])
qed

lemma height_variance_total: "grid_ok bm \<Longrightarrow> \<exists>n. height_variance bm = Return n"
proof -
  assume g: "grid_ok bm"
  from col_height_total [OF g, of 0] obtain p0 where p0: "col_height bm 0 = Return p0" by auto
  have "\<exists>s'. for_each [0..<12]
                 (\<lambda>(variance, prev) col.
                    bind (col_height bm col) (\<lambda>cur. Return (variance + \<bar>cur - prev\<bar>, cur)))
                 (0, p0) = Return s'"
  proof (rule for_each_returns)
    fix s :: "int \<times> int" and x assume "x \<in> set [0..<12]"
    then have "x < 12" by simp
    from col_height_total [OF g this]
    show "\<exists>s'. (case s of (variance, prev) \<Rightarrow> \<lambda>col.
                    bind (col_height bm col) (\<lambda>cur. Return (variance + \<bar>cur - prev\<bar>, cur))) x = Return s'"
      by (auto split: prod.splits)
  qed
  then show ?thesis
    by (auto simp: height_variance_def size_of_grid_ok [OF g] p0 split: prod.splits)
qed

lemma evaluate_total: "grid_ok bm \<Longrightarrow> \<exists>cur. evaluate bm = Return cur"
  using num_holes_total [of bm] max_height_total [of bm] height_variance_total [of bm]
  by (auto simp: evaluate_def)

section \<open>The dictionary\<close>

lemma map_of_dict_set: "map_of (dict_set k v d) = (map_of d)(k \<mapsto> v)"
  by (induction d) (auto simp: fun_eq_iff)

lemma keys_dict_set: "set (map fst (dict_set k v d)) = insert k (set (map fst d))"
proof -
  have "set (map fst (dict_set k v d)) = dom (map_of (dict_set k v d))"
    by (simp add: dom_map_of_conv_image_fst)
  also have "\<dots> = insert k (dom (map_of d))"
    by (simp add: map_of_dict_set)
  also have "\<dots> = insert k (set (map fst d))"
    by (simp add: dom_map_of_conv_image_fst)
  finally show ?thesis .
qed

lemma py_max_Max: "ks \<noteq> [] \<Longrightarrow> py_max ks = Return (Max (set ks))"
  by (cases ks) (simp_all add: py_max_def Max.set_eq_fold [symmetric])

section \<open>One probe\<close>

lemma same_shape_refl [simp]: "same_shape b b"
  by (simp add: same_shape_def)

lemma same_shape_trans: "same_shape a b \<Longrightarrow> same_shape b c \<Longrightarrow> same_shape a c"
  by (simp add: same_shape_def)

lemma same_shape_reset: "same_shape b b' \<Longrightarrow> reset_position b = reset_position b'"
  by (cases b, cases b') (simp add: same_shape_def reset_position_def)

lemma same_shape_reset_self [simp]: "same_shape (reset_position b) b"
  by (simp add: same_shape_def reset_position_def)

lemma same_shape_apply_token [simp]: "same_shape (apply_token c b) b"
  by (simp add: same_shape_def apply_token_def do_command_def)

lemma same_shape_poses: "p \<in> set (poses b cs) \<Longrightarrow> same_shape p b"
proof (induction cs arbitrary: b)
  case Nil
  then show ?case by simp
next
  case (Cons c cs)
  then show ?case
    by (auto intro: same_shape_trans [OF _ same_shape_apply_token])
qed

lemma same_shape_funpow_down [simp]: "same_shape ((down ^^ n) b) b"
  by (induction n) (simp_all add: same_shape_def)

lemma do_commands_shape:
  assumes "same_shape b (block board)"
  shows "do_commands (board\<lparr>block := b\<rparr>) m = do_commands board m"
  using same_shape_reset [OF assms]
  by (simp add: do_commands_def Let_def cong: result.case_cong if_cong)

lemma find_None_all: "find P xs = None \<Longrightarrow> x \<in> set xs \<Longrightarrow> \<not> P x"
  by (simp add: find_None_iff)

lemma find_Some_mem: "find P xs = Some x \<Longrightarrow> x \<in> set xs"
  by (auto simp: find_Some_iff)

lemma do_commands_outcome:
  assumes g: "grid_ok (bitmap board)" and o: "offsets (block board) \<noteq> []"
    and p: "preview board \<noteq> []" and t: "set m \<subseteq> set move_tokens"
  shows "(\<exists>b c. do_commands board m = Some (b, c, [], Raise InvalidMoveError) \<and>
                same_shape b (block board)) \<or>
         (\<exists>b c nb. do_commands board m = Some (b, c, [], Return (Some nb)) \<and>
                   grid_ok (bitmap nb) \<and> same_shape b (block board))"
proof -
  define b0 where "b0 = reset_position (block board)"
  define ps where "ps = poses b0 (takeWhile (\<lambda>c. c \<noteq> ''drop'') m)"
  have dc: "do_commands board m =
              (if \<not> legal board b0 then Some (b0, m, [], Raise InvalidMoveError)
               else case find (\<lambda>p. \<not> legal board p) ps of
                      Some p \<Rightarrow> Some (p, m @ [''drop''], [], Raise InvalidMoveError)
                    | None \<Rightarrow>
                        map_option (\<lambda>(b, out, r). (b, m @ [''drop''], out, r))
                          (place (board\<lparr>block := last ps\<rparr>)))"
    unfolding b0_def ps_def using do_commands_closed [OF g t] by (simp add: Let_def)
  have s0: "same_shape b0 (block board)" by (simp add: b0_def)
  have sp: "same_shape q (block board)" if "q \<in> set ps" for q
    using same_shape_poses [of q b0] that s0 by (auto simp: ps_def intro: same_shape_trans)
  show ?thesis
  proof (cases "legal board b0")
    case False
    then show ?thesis using dc s0 by simp
  next
    case True
    show ?thesis
    proof (cases "find (\<lambda>p. \<not> legal board p) ps")
      case (Some q)
      then have "q \<in> set ps" by (rule find_Some_mem)
      then show ?thesis using dc True Some sp by simp
    next
      case None
      define bl where "bl = last ps"
      have mem: "bl \<in> set ps" by (simp add: bl_def ps_def)
      have sl: "same_shape bl (block board)" using mem by (rule sp)
      have ll: "legal board bl" using find_None_all [OF None mem] by simp
      have g': "grid_ok (bitmap (board\<lparr>block := bl\<rparr>))" using g by simp
      have o': "offsets (block (board\<lparr>block := bl\<rparr>)) \<noteq> []"
        using o sl by (simp add: same_shape_def)
      have l': "legal (board\<lparr>block := bl\<rparr>) (block (board\<lparr>block := bl\<rparr>))"
        using ll by (simp add: legal_def)
      from place_run [OF g' o' l'] p obtain n g2 where
        pl: "place (board\<lparr>block := bl\<rparr>) =
               Some ((down ^^ n) bl,
                     [], Return (Some \<lparr>bitmap = g2, block = hd (preview board),
                                        preview = tl (preview board)\<rparr>))"
        and g2: "grid_ok g2"
        by auto
      have "same_shape ((down ^^ n) bl) (block board)"
        using sl by (auto intro: same_shape_trans [OF same_shape_funpow_down])
      then show ?thesis
        using dc True None pl g2 by (simp add: bl_def [symmetric])
    qed
  qed
qed

lemma rot_round_step:
  assumes g: "grid_ok (bitmap board)" and o: "offsets (block board) \<noteq> []"
    and p: "preview board \<noteq> []"
    and sb: "st_board st = board\<lparr>block := b\<rparr>" "same_shape b (block board)"
    and t: "set (st_moves st) \<subseteq> set move_tokens"
  shows "\<exists>b'. same_shape b' (block board) \<and>
              rot_round st =
                Some (Return (st\<lparr>st_board := board\<lparr>block := b'\<rparr>,
                                  st_choices :=
                                    (case score_of board (st_moves st @ [''rotate'']) of
                                       None \<Rightarrow> st_choices st
                                     | Some s \<Rightarrow>
                                         dict_set s (st_moves st @ [''rotate'']) (st_choices st)),
                                  st_moves := st_moves st @ [''rotate''],
                                  st_probes := st_probes st @
                                    [(st_moves st @ [''rotate''],
                                      score_of board (st_moves st @ [''rotate'']))]\<rparr>))"
proof -
  define m where "m = st_moves st @ [''rotate'']"
  have tm: "set m \<subseteq> set move_tokens" using t by (simp add: m_def move_tokens_def)
  have eq: "do_commands (board\<lparr>block := reset_position b\<rparr>) m = do_commands board m"
    using do_commands_shape [of "reset_position b" board m] sb(2)
    by (simp add: same_shape_def reset_position_def)
  from do_commands_outcome [OF g o p tm] show ?thesis
  proof (elim disjE exE conjE)
    fix b' c
    assume d: "do_commands board m = Some (b', c, [], Raise InvalidMoveError)"
      and s: "same_shape b' (block board)"
    have sc: "score_of board m = None" by (simp add: score_of_def d)
    show ?thesis
      using s by (intro exI [of _ b'])
        (simp add: rot_round_def Let_def m_def [symmetric] eq d sc sb(1))
  next
    fix b' c nb
    assume d: "do_commands board m = Some (b', c, [], Return (Some nb))"
      and gn: "grid_ok (bitmap nb)" and s: "same_shape b' (block board)"
    from evaluate_total [OF gn] obtain cur where cur: "evaluate (bitmap nb) = Return cur"
      by auto
    have sc: "score_of board m = Some cur" by (simp add: score_of_def d cur)
    show ?thesis
      using s by (intro exI [of _ b'])
        (simp add: rot_round_def Let_def m_def [symmetric] eq d sc cur sb(1))
  qed
qed

section \<open>The loops of the search\<close>

lemma recorded_for_snoc:
  "recorded_for (ps @ [(m, sc)]) s = (if sc = Some s then Some m else recorded_for ps s)"
  by (cases "filter (\<lambda>p. snd p = Some s) ps") (simp_all add: recorded_for_def)

lemma tokens_of_probe:
  "set (replicate l ''left'' @ replicate i ''right'' @ replicate d ''down'' @
        replicate k ''rotate'') \<subseteq> set move_tokens"
  by (auto simp: move_tokens_def)

lemma rot_round_inv:
  assumes g: "grid_ok (bitmap board)" and o: "offsets (block board) \<noteq> []"
    and p: "preview board \<noteq> []"
    and inv: "search_inv board n st"
    and mv: "st_moves st = replicate l ''left'' @ replicate i ''right'' @
                           replicate d ''down'' @ replicate k ''rotate''"
    and n: "n = 3 * i + k" "k < 3"
  shows "\<exists>st'. rot_round st = Some (Return st') \<and> search_inv board (Suc n) st' \<and>
               st_moves st' = replicate l ''left'' @ replicate i ''right'' @
                              replicate d ''down'' @ replicate (Suc k) ''rotate''"
proof -
  define m where "m = st_moves st @ [''rotate'']"
  define sc where "sc = score_of board m"
  from inv obtain b where b: "st_board st = board\<lparr>block := b\<rparr>" "same_shape b (block board)"
    by (auto simp: search_inv_def)
  have t: "set (st_moves st) \<subseteq> set move_tokens"
    unfolding mv by (rule tokens_of_probe)
  from rot_round_step [OF g o p b t, folded m_def, folded sc_def] obtain b' where b':
    "same_shape b' (block board)"
    "rot_round st =
       Some (Return (st\<lparr>st_board := board\<lparr>block := b'\<rparr>,
                        st_choices := (case sc of None \<Rightarrow> st_choices st
                                       | Some s \<Rightarrow> dict_set s m (st_choices st)),
                        st_moves := m,
                        st_probes := st_probes st @ [(m, sc)]\<rparr>))"
    by blast
  define st' where
    "st' = st\<lparr>st_board := board\<lparr>block := b'\<rparr>,
              st_choices := (case sc of None \<Rightarrow> st_choices st
                             | Some s \<Rightarrow> dict_set s m (st_choices st)),
              st_moves := m, st_probes := st_probes st @ [(m, sc)]\<rparr>"
  have mm: "m = replicate l ''left'' @ replicate i ''right'' @
                replicate d ''down'' @ replicate (Suc k) ''rotate''"
    by (simp add: m_def mv replicate_append_same)
  have dm: "n div 3 = i" "n mod 3 = k" using n by simp_all
  have len: "length (st_probes st) = n" using inv by (simp add: search_inv_def)
  have entries:
    "(\<exists>l d. fst (st_probes st' ! j) =
               replicate l ''left'' @ replicate (j div 3) ''right'' @
               replicate d ''down'' @ replicate (Suc (j mod 3)) ''rotate'') \<and>
     snd (st_probes st' ! j) = score_of board (fst (st_probes st' ! j))"
    if "j < Suc n" for j
  proof (cases "j < n")
    case True
    then have "st_probes st' ! j = st_probes st ! j"
      by (simp add: st'_def nth_append len)
    with inv True show ?thesis by (simp add: search_inv_def)
  next
    case False
    with that have j: "j = n" by simp
    have e: "st_probes st' ! j = (m, sc)" by (simp add: st'_def j nth_append len)
    have "\<exists>l d. m = replicate l ''left'' @ replicate (j div 3) ''right'' @
                    replicate d ''down'' @ replicate (Suc (j mod 3)) ''rotate''"
      unfolding j dm using mm by blast
    then show ?thesis by (simp add: e sc_def)
  qed
  have rec: "map_of (st_choices st') s = recorded_for (st_probes st') s" for s
  proof -
    have old: "map_of (st_choices st) s = recorded_for (st_probes st) s"
      using inv by (simp add: search_inv_def)
    show ?thesis
      by (cases sc) (simp_all add: st'_def recorded_for_snoc map_of_dict_set old)
  qed
  have "search_inv board (Suc n) st'"
    unfolding search_inv_def
  proof (intro conjI allI impI)
    show "\<exists>b. st_board st' = board\<lparr>block := b\<rparr> \<and> same_shape b (block board)"
      using b'(1) by (auto simp: st'_def)
    show "length (st_probes st') = Suc n" by (simp add: st'_def len)
  qed (use entries rec in blast)+
  moreover have "st_moves st' = m" by (simp add: st'_def)
  ultimately show ?thesis
    using b'(2) mm by (simp add: st'_def)
qed

lemma for_range_upt_inv:
  assumes step: "\<And>s i. i < n \<Longrightarrow> Q i s \<Longrightarrow> \<exists>s'. body s i = Some (Return s') \<and> Q (Suc i) s'"
    and init: "Q 0 s"
  shows "\<exists>s'. for_range [0..<n] body s = Some (Return s') \<and> Q n s'"
proof -
  have "Q i s \<Longrightarrow> i + k = n \<Longrightarrow> \<exists>s'. for_range [i..<i + k] body s = Some (Return s') \<and> Q n s'"
    for i k s
  proof (induction k arbitrary: i s)
    case 0
    then show ?case by simp
  next
    case (Suc k)
    have "i < n" using Suc.prems(2) by simp
    from step [OF this Suc.prems(1)] obtain s1 where
      s1: "body s i = Some (Return s1)" "Q (Suc i) s1" by blast
    have "Suc i + k = n" using Suc.prems(2) by simp
    from Suc.IH [OF s1(2) this] obtain s' where
      "for_range [Suc i..<Suc i + k] body s1 = Some (Return s')" "Q n s'" by blast
    moreover have "[i..<i + Suc k] = i # [Suc i..<Suc i + k]"
      by (subst upt_rec) (simp del: upt_Suc)
    ultimately show ?case using s1(1) by (simp del: upt_Suc)
  qed
  from this [of 0 s n] init show ?thesis by simp
qed

lemma search_inv_board:
  assumes "search_inv board n st" and "same_shape b (block board)"
  shows "search_inv board n (st\<lparr>st_board := board\<lparr>block := b\<rparr>, st_moves := m\<rparr>)"
  using assms by (auto simp: search_inv_def)

lemma shift_round_inv:
  assumes g: "grid_ok (bitmap board)" and o: "offsets (block board) \<noteq> []"
    and p: "preview board \<noteq> []"
    and inv: "search_inv board (3 * i) st"
  shows "\<exists>st'. shift_round st i = Some (Return st') \<and> search_inv board (3 * Suc i) st'"
proof -
  from inv obtain b where b: "st_board st = board\<lparr>block := b\<rparr>" "same_shape b (block board)"
    by (auto simp: search_inv_def)
  have ob: "offsets b \<noteq> []" using b(2) o by (simp add: same_shape_def)
  from left_loop_run [of "board\<lparr>block := b\<rparr>" "[]"] g ob obtain l b1 where
    ll: "left_loop (board\<lparr>block := b\<rparr>) [] =
           Some (board\<lparr>block := b1\<rparr>, Return (replicate l ''left''))"
    and s1: "same_shape b1 b"
    by (auto simp: same_shape_def)
  have ob1: "offsets b1 \<noteq> []" using s1 ob by (simp add: same_shape_def)
  from down_loop_run [of "board\<lparr>block := b1\<rparr>"
      "replicate l ''left'' @ replicate i ''right''"] g ob1
  obtain d b2 where
    dl: "down_loop (board\<lparr>block := b1\<rparr>) (replicate l ''left'' @ replicate i ''right'') =
           Some (board\<lparr>block := b2\<rparr>,
                 Return (replicate l ''left'' @ replicate i ''right'' @ replicate d ''down''))"
    and s2: "same_shape b2 b1"
    by (auto simp: same_shape_def)
  have sb2: "same_shape b2 (block board)"
    using s2 s1 b(2) by (blast intro: same_shape_trans)
  define s0 where
    "s0 = st\<lparr>st_board := board\<lparr>block := b2\<rparr>,
              st_moves := replicate l ''left'' @ replicate i ''right'' @ replicate d ''down''\<rparr>"
  have i0: "search_inv board (3 * i) s0"
    unfolding s0_def using inv sb2 by (rule search_inv_board)
  have m0: "st_moves s0 = replicate l ''left'' @ replicate i ''right'' @
                          replicate d ''down'' @ replicate 0 ''rotate''"
    by (simp add: s0_def)
  from rot_round_inv [OF g o p i0 m0] obtain s1' where
    r1: "rot_round s0 = Some (Return s1')" "search_inv board (Suc (3 * i)) s1'"
      "st_moves s1' = replicate l ''left'' @ replicate i ''right'' @
                      replicate d ''down'' @ replicate (Suc 0) ''rotate''"
    by auto
  from rot_round_inv [OF g o p r1(2,3)] obtain s2' where
    r2: "rot_round s1' = Some (Return s2')" "search_inv board (Suc (Suc (3 * i))) s2'"
      "st_moves s2' = replicate l ''left'' @ replicate i ''right'' @
                      replicate d ''down'' @ replicate (Suc (Suc 0)) ''rotate''"
    by auto
  from rot_round_inv [OF g o p r2(2,3)] obtain s3' where
    r3: "rot_round s2' = Some (Return s3')" "search_inv board (Suc (Suc (Suc (3 * i)))) s3'"
    by auto
  have three: "[0..<3] = [0, 1, 2]" by (simp add: upt_rec)
  have "shift_round st i = Some (Return s3')"
    by (simp add: shift_round_def b(1) ll dl s0_def [symmetric] three r1(1) r2(1) r3(1))
  moreover have "3 * Suc i = Suc (Suc (Suc (3 * i)))" by simp
  then have "search_inv board (3 * Suc i) s3'" using r3(2) by (simp only:)
  ultimately show ?thesis by blast
qed

lemma search_run:
  assumes g: "grid_ok (bitmap board)" and o: "offsets (block board) \<noteq> []"
    and p: "preview board \<noteq> []"
  shows "\<exists>st. search board = Some (Return st) \<and> search_inv board 36 st"
proof -
  have init: "search_inv board (3 * 0)
                \<lparr>st_board = board, st_choices = [], st_moves = [], st_probes = []\<rparr>"
    by (auto simp: search_inv_def recorded_for_def intro: exI [of _ "block board"])
  have "\<exists>s'. for_range [0..<12] shift_round
               \<lparr>st_board = board, st_choices = [], st_moves = [], st_probes = []\<rparr>
             = Some (Return s') \<and> search_inv board (3 * 12) s'"
    using shift_round_inv [OF g o p] init
    by (rule for_range_upt_inv [where Q = "\<lambda>i s. search_inv board (3 * i) s"])
  then show ?thesis by (simp add: search_def)
qed

section \<open>The answer of the search\<close>

lemma scores_mem: "s \<in> set (scores ps) \<longleftrightarrow> (\<exists>m. (m, Some s) \<in> set ps)"
  by (induction ps) (auto simp: scores_def split: option.splits)

lemma recorded_for_None: "recorded_for ps s = None \<longleftrightarrow> s \<notin> set (scores ps)"
proof -
  have "filter (\<lambda>p. snd p = Some s) ps = [] \<longleftrightarrow> s \<notin> set (scores ps)"
    by (auto simp: scores_mem filter_empty_conv)
  then show ?thesis
    by (cases "filter (\<lambda>p. snd p = Some s) ps") (simp_all add: recorded_for_def)
qed

lemma recorded_for_Some_mem:
  assumes "recorded_for ps s = Some m"
  shows "(m, Some s) \<in> set ps"
proof (cases "filter (\<lambda>p. snd p = Some s) ps")
  case Nil
  with assms show ?thesis by (simp add: recorded_for_def)
next
  case (Cons q qs)
  then have "last (q # qs) \<in> set (filter (\<lambda>p. snd p = Some s) ps)"
    by (metis last_in_set list.distinct(1))
  then have "last (q # qs) \<in> set ps" "snd (last (q # qs)) = Some s" by simp_all
  moreover have "m = fst (last (q # qs))"
    using assms Cons by (simp add: recorded_for_def)
  ultimately show ?thesis by (metis prod.collapse)
qed

lemma main_answer:
  assumes s: "search board = Some (Return st)"
    and r: "\<And>s. map_of (st_choices st) s = recorded_for (st_probes st) s"
  shows "main board =
           Some (if scores (st_probes st) = [] then Raise ValueError
                 else case recorded_for (st_probes st) (Max (set (scores (st_probes st)))) of
                        None \<Rightarrow> Raise KeyError
                      | Some m \<Rightarrow> Return m)"
proof -
  have "set (map fst (st_choices st)) = dom (map_of (st_choices st))"
    by (simp add: dom_map_of_conv_image_fst)
  also have "\<dots> = set (scores (st_probes st))"
    using recorded_for_None [of "st_probes st"] by (auto simp: dom_def r)
  finally have keys: "set (map fst (st_choices st)) = set (scores (st_probes st))" .
  show ?thesis
  proof (cases "scores (st_probes st) = []")
    case True
    with keys have "map fst (st_choices st) = []" by simp
    then show ?thesis using True by (simp add: main_def s py_max_def)
  next
    case False
    with keys have ne: "map fst (st_choices st) \<noteq> []" by auto
    have "py_max (map fst (st_choices st)) = Return (Max (set (scores (st_probes st))))"
      using py_max_Max [OF ne] keys by simp
    then show ?thesis
      using False by (simp add: main_def s dict_get_def r)
  qed
qed

text \<open>
  C6.  The search.  On a game state with a 33 x 12 grid, a piece of at least one offset
  and a non-empty preview, the search makes exactly 36 probes; probe \<open>n\<close> hands over a
  list of \<open>'left'\<close>s, then \<open>n div 3\<close> \<open>'right'\<close>s, then \<open>'down'\<close>s, then \<open>n mod 3 + 1\<close>
  \<open>'rotate'\<close>s, and records for it the score of the board that \<open>do_commands\<close> returns
  for that list, if it returns one.  The dictionary holds, under each score, the list of
  the last probe with that score.  The program raises \<open>ValueError\<close> when no probe
  succeeded and otherwise prints the list recorded under the largest score, which
  contains no \<open>'drop'\<close> and ends with \<open>'rotate'\<close>.
\<close>

theorem search_spec:
  assumes "grid_ok (bitmap board)" and "offsets (block board) \<noteq> []"
    and "preview board \<noteq> []"
  shows "\<exists>st. search board = Some (Return st) \<and>
           length (st_probes st) = 36 \<and>
           (\<forall>n<36. (\<exists>l d. fst (st_probes st ! n) =
                              replicate l ''left'' @ replicate (n div 3) ''right'' @
                              replicate d ''down'' @ replicate (Suc (n mod 3)) ''rotate'') \<and>
                    snd (st_probes st ! n) = score_of board (fst (st_probes st ! n))) \<and>
           (\<forall>s. map_of (st_choices st) s = recorded_for (st_probes st) s) \<and>
           main board =
             Some (if scores (st_probes st) = [] then Raise ValueError
                   else case recorded_for (st_probes st) (Max (set (scores (st_probes st)))) of
                          None \<Rightarrow> Raise KeyError
                        | Some m \<Rightarrow> Return m) \<and>
           (scores (st_probes st) \<noteq> [] \<longrightarrow> (\<exists>m. main board = Some (Return m))) \<and>
           (\<forall>m. main board = Some (Return m) \<longrightarrow>
                  ''drop'' \<notin> set m \<and> m \<noteq> [] \<and> last m = ''rotate'')"
proof -
  from search_run [OF assms] obtain st where
    st: "search board = Some (Return st)" and inv: "search_inv board 36 st"
    by blast
  have len: "length (st_probes st) = 36" using inv by (simp add: search_inv_def)
  have entries: "\<forall>n<36. (\<exists>l d. fst (st_probes st ! n) =
                              replicate l ''left'' @ replicate (n div 3) ''right'' @
                              replicate d ''down'' @ replicate (Suc (n mod 3)) ''rotate'') \<and>
                    snd (st_probes st ! n) = score_of board (fst (st_probes st ! n))"
    using inv by (simp add: search_inv_def)
  have rec: "map_of (st_choices st) s = recorded_for (st_probes st) s" for s
    using inv by (simp add: search_inv_def)
  note ans = main_answer [OF st rec]
  have found: "\<exists>m. main board = Some (Return m)" if "scores (st_probes st) \<noteq> []"
  proof -
    have "Max (set (scores (st_probes st))) \<in> set (scores (st_probes st))"
      using that by (intro Max_in) simp_all
    then obtain m where
      "recorded_for (st_probes st) (Max (set (scores (st_probes st)))) = Some m"
      using recorded_for_None [of "st_probes st" "Max (set (scores (st_probes st)))"]
      by (cases "recorded_for (st_probes st) (Max (set (scores (st_probes st))))") auto
    with ans that show ?thesis by simp
  qed
  have emitted: "''drop'' \<notin> set m \<and> m \<noteq> [] \<and> last m = ''rotate''"
    if "main board = Some (Return m)" for m
  proof -
    from that ans obtain k where "recorded_for (st_probes st) k = Some m"
      by (auto split: if_splits option.splits)
    then have "(m, Some k) \<in> set (st_probes st)" by (rule recorded_for_Some_mem)
    then obtain n where n: "n < 36" "st_probes st ! n = (m, Some k)"
      using len by (auto simp: in_set_conv_nth)
    with entries obtain l d where
      "m = replicate l ''left'' @ replicate (n div 3) ''right'' @
           replicate d ''down'' @ replicate (Suc (n mod 3)) ''rotate''"
      by fastforce
    then show ?thesis by (auto simp: replicate_append_same [symmetric] simp del: replicate_Suc)
  qed
  from st len entries rec ans found emitted show ?thesis by blast
qed

theorem search_spec_witness:
  "grid_ok (bitmap start_board) \<and> offsets (block start_board) \<noteq> [] \<and>
   preview start_board \<noteq> [] \<and>
   main start_board =
     Some (Return [''right'', ''right'', ''right'', ''right'', ''right'', ''rotate'', ''rotate'']) \<and>
   (\<exists>st. search start_board = Some (Return st) \<and> length (st_probes st) = 36 \<and>
         (\<forall>s. map_of (st_choices st) s = recorded_for (st_probes st) s) \<and>
         recorded_for (st_probes st) (Max (set (scores (st_probes st)))) =
           Some [''right'', ''right'', ''right'', ''right'', ''right'', ''rotate'', ''rotate''])"
proof -
  have g: "grid_ok (bitmap start_board)"
    by (simp add: bitmap_start_board grid_ok_empty)
  have o: "offsets (block start_board) \<noteq> []"
    by (simp add: start_board_def domino_def new_Block_def)
  have p: "preview start_board \<noteq> []"
    by (simp add: start_board_def)
  have m: "main start_board =
     Some (Return [''right'', ''right'', ''right'', ''right'', ''right'', ''rotate'', ''rotate''])"
    by code_simp
  from search_spec [OF g o p] obtain st where st:
    "search start_board = Some (Return st)" "length (st_probes st) = 36"
    "\<forall>s. map_of (st_choices st) s = recorded_for (st_probes st) s"
    "main start_board =
       Some (if scores (st_probes st) = [] then Raise ValueError
             else case recorded_for (st_probes st) (Max (set (scores (st_probes st)))) of
                    None \<Rightarrow> Raise KeyError
                  | Some m \<Rightarrow> Return m)"
    by blast
  from st(4) m have
    "recorded_for (st_probes st) (Max (set (scores (st_probes st)))) =
       Some [''right'', ''right'', ''right'', ''right'', ''right'', ''rotate'', ''rotate'']"
    by (auto split: if_splits option.splits)
  with g o p m st(1,2,3) show ?thesis by blast
qed

text \<open>
  The preview must not be empty: on the empty board with the domino and an empty preview
  the fifth probe is the first whose move list executes, \<open>place\<close> returns \<open>None\<close> for it,
  \<open>new_board.evaluate()\<close> raises \<open>AttributeError\<close>, and the program ends there: no 36
  probes, no move list.
\<close>

theorem search_empty_preview_crashes:
  "grid_ok (bitmap last_board) \<and> offsets (block last_board) \<noteq> [] \<and>
   preview last_board = [] \<and>
   search last_board = Some (Raise AttributeError) \<and>
   main last_board = Some (Raise AttributeError)"
proof -
  have s: "search last_board = Some (Raise AttributeError)"
    by code_simp
  have "main last_board = Some (Raise AttributeError)"
    by (simp add: main_def s)
  moreover have "grid_ok (bitmap last_board)"
    by (simp add: last_board_def grid_ok_empty)
  moreover have "offsets (block last_board) \<noteq> []" "preview last_board = []"
    by (simp_all add: last_board_def domino_def new_Block_def)
  ultimately show ?thesis using s by simp
qed

section \<open>Scenario: the feature values of \<open>test_board\<close>\<close>

text \<open>
  C7.  On the 3 x 3 grid \<open>[[1,1,1],[1,0,1],[1,1,1]]\<close> (the module's \<open>test_board\<close>),
  \<open>num_holes\<close> returns 1, \<open>max_height\<close> returns 3 and \<open>height_variance\<close> returns 0.
\<close>

theorem test_board_features:
  "num_holes test_board = Return 1 \<and>
   max_height test_board = Return 3 \<and>
   height_variance test_board = Return 0"
  by code_simp

end
